theory Spec2Isabelle
  imports Main
begin

section \<open>The ambient world, callbacks and the event log\<close>

text \<open>
  The program in \<^verbatim>\<open>src/index.ts\<close> is an Observer class, an Observable class and the
  Subscription handle that \<^verbatim>\<open>Observable.subscribe\<close> returns. Everything the classes do
  is calling callbacks supplied from outside (the three optional handlers, the subscribe
  function and the teardown action it returns) and updating two private fields.

  A callback is a procedure on the world outside the classes. The world has the console
  (the teardown of \<^verbatim>\<open>Observable.from\<close> writes to it) and whatever state the consumer's
  handlers keep. A callback either returns, with the new world, or throws a value.
  In the first sections callbacks do not call back into the Observer they are invoked by;
  the section on callbacks that reach the Observer lifts that.
\<close>

record 'u world =
  console :: "string list"
  user :: 'u

type_synonym ('e, 'u) action = "'u world \<Rightarrow> 'e + 'u world"

text \<open>
  What a method call can throw: the value a callback threw, or the \<^verbatim>\<open>TypeError\<close> that
  JavaScript raises when a value that is \<^verbatim>\<open>undefined\<close> is called as a function.
\<close>

datatype 'e exn = TypeError | Thrown 'e

text \<open>
  The event log is the instrumentation of the model: one entry per callback that was
  invoked and returned, at the four call sites of the Observer class, and one entry per
  assignment of the teardown field.
\<close>

datatype ('a, 'e) event =
    NextCalled 'a
  | ErrorCalled 'e
  | CompleteCalled
  | TeardownCalled
  | TeardownInstalled

section \<open>The Observer class\<close>

text \<open>\<^verbatim>\<open>interface ObserverHandlers<T>\<close>: three fields, each of them optional.\<close>

record ('a, 'e, 'u) ObserverHandlers =
  handlers_next :: "('a \<Rightarrow> ('e, 'u) action) option"
  handlers_error :: "('e \<Rightarrow> ('e, 'u) action) option"
  handlers_complete :: "('e, 'u) action option"

text \<open>
  \<^verbatim>\<open>class Observer<T>\<close>: the constructor's \<^verbatim>\<open>handlers\<close>, the flag \<^verbatim>\<open>isUnsubscribed\<close> and
  the optional field \<^verbatim>\<open>_unsubscribe\<close> (a name cannot start with an underscore here).
\<close>

record ('a, 'e, 'u) Observer =
  handlers :: "('a, 'e, 'u) ObserverHandlers"
  isUnsubscribed :: bool
  private_unsubscribe :: "('e, 'u) action option"

text \<open>One Observer, the world around it and the log of what has been invoked on its behalf.\<close>

record ('a, 'e, 'u) config =
  observer :: "('a, 'e, 'u) Observer"
  world :: "'u world"
  trace :: "('a, 'e) event list"

text \<open>
  Calling an optional callback. An absent one is \<^verbatim>\<open>undefined\<close>, and calling it is a
  \<^verbatim>\<open>TypeError\<close>; a callback that throws ends the method with that exception; one that
  returns is logged.
\<close>

definition call ::
  "('a, 'e) event \<Rightarrow> ('e, 'u) action option \<Rightarrow> ('a, 'e, 'u) config
    \<Rightarrow> 'e exn + ('a, 'e, 'u) config" where
  "call ev f s =
     (case f of
        None \<Rightarrow> Inl TypeError
      | Some g \<Rightarrow>
          (case g (world s) of
             Inl x \<Rightarrow> Inl (Thrown x)
           | Inr w \<Rightarrow> Inr (s\<lparr>world := w, trace := trace s @ [ev]\<rparr>)))"

text \<open>Sequencing of two statements: the second runs only if the first did not throw.\<close>

definition and_then :: "'x + 's \<Rightarrow> ('s \<Rightarrow> 'x + 't) \<Rightarrow> 'x + 't" where
  "and_then r f = (case r of Inl x \<Rightarrow> Inl x | Inr s \<Rightarrow> f s)"

text \<open>\<^verbatim>\<open>new Observer<T>(handlers)\<close>: the flag is false and the teardown field is unset.\<close>

definition new_Observer :: "('a, 'e, 'u) ObserverHandlers \<Rightarrow> ('a, 'e, 'u) Observer" where
  "new_Observer hs = \<lparr>handlers = hs, isUnsubscribed = False, private_unsubscribe = None\<rparr>"

text \<open>
  \<^verbatim>\<open>next(value) { if (!this.isUnsubscribed && this.handlers.next) this.handlers.next(value) }\<close>
\<close>

definition Observer_next ::
  "'a \<Rightarrow> ('a, 'e, 'u) config \<Rightarrow> 'e exn + ('a, 'e, 'u) config" where
  "Observer_next v s =
     (if \<not> isUnsubscribed (observer s) \<and> handlers_next (handlers (observer s)) \<noteq> None
      then call (NextCalled v) (map_option (\<lambda>h. h v) (handlers_next (handlers (observer s)))) s
      else Inr s)"

text \<open>
  \<^verbatim>\<open>unsubscribe() { this.isUnsubscribed = true; if (this._unsubscribe) this._unsubscribe() }\<close>
\<close>

definition Observer_unsubscribe ::
  "('a, 'e, 'u) config \<Rightarrow> 'e exn + ('a, 'e, 'u) config" where
  "Observer_unsubscribe s =
     (let s1 = s\<lparr>observer := (observer s)\<lparr>isUnsubscribed := True\<rparr>\<rparr>
      in if private_unsubscribe (observer s1) \<noteq> None
         then call TeardownCalled (private_unsubscribe (observer s1)) s1
         else Inr s1)"

text \<open>
  \<^verbatim>\<open>error(error) { if (!this.isUnsubscribed) {
       if (this.handlers.error) this.handlers.error(error); this.unsubscribe() } }\<close>
\<close>

definition Observer_error ::
  "'e \<Rightarrow> ('a, 'e, 'u) config \<Rightarrow> 'e exn + ('a, 'e, 'u) config" where
  "Observer_error err s =
     (if \<not> isUnsubscribed (observer s)
      then and_then
             (if handlers_error (handlers (observer s)) \<noteq> None
              then call (ErrorCalled err)
                     (map_option (\<lambda>h. h err) (handlers_error (handlers (observer s)))) s
              else Inr s)
             Observer_unsubscribe
      else Inr s)"

text \<open>
  \<^verbatim>\<open>complete() { if (!this.isUnsubscribed) {
       if (this.handlers.complete) this.handlers.complete(); this.unsubscribe() } }\<close>
\<close>

definition Observer_complete ::
  "('a, 'e, 'u) config \<Rightarrow> 'e exn + ('a, 'e, 'u) config" where
  "Observer_complete s =
     (if \<not> isUnsubscribed (observer s)
      then and_then
             (if handlers_complete (handlers (observer s)) \<noteq> None
              then call CompleteCalled (handlers_complete (handlers (observer s))) s
              else Inr s)
             Observer_unsubscribe
      else Inr s)"

text \<open>\<^verbatim>\<open>setUnsubscribe(unsub) { this._unsubscribe = unsub }\<close>\<close>

definition Observer_setUnsubscribe ::
  "('e, 'u) action \<Rightarrow> ('a, 'e, 'u) config \<Rightarrow> ('a, 'e, 'u) config" where
  "Observer_setUnsubscribe unsub s =
     s\<lparr>observer := (observer s)\<lparr>private_unsubscribe := Some unsub\<rparr>,
       trace := trace s @ [TeardownInstalled]\<rparr>"

section \<open>The Observable class\<close>

text \<open>
  \<^verbatim>\<open>class Observable<T>\<close> holds \<^verbatim>\<open>_subscribeFn\<close>, a function from an Observer to the
  teardown action. It runs on the configuration that holds that Observer, and may throw.
\<close>

record ('a, 'e, 'u) Observable =
  subscribeFn ::
    "('a, 'e, 'u) config \<Rightarrow> 'e exn + (('e, 'u) action \<times> ('a, 'e, 'u) config)"

text \<open>\<^verbatim>\<open>values.forEach(f)\<close>: the elements in order; an exception ends the loop.\<close>

primrec forEach :: "('a \<Rightarrow> 's \<Rightarrow> 'x + 's) \<Rightarrow> 'a list \<Rightarrow> 's \<Rightarrow> 'x + 's" where
  "forEach f [] s = Inr s"
| "forEach f (v # vs) s = and_then (f v s) (forEach f vs)"

text \<open>The teardown that \<^verbatim>\<open>Observable.from\<close> returns: \<^verbatim>\<open>() => { console.log('unsubscribed') }\<close>.\<close>

definition log_unsubscribed :: "('e, 'u) action" where
  "log_unsubscribed w = Inr (w\<lparr>console := console w @ [''unsubscribed'']\<rparr>)"

text \<open>
  \<^verbatim>\<open>static from(values) { return new Observable((observer) => {
       values.forEach((value) => observer.next(value)); observer.complete();
       return () => { console.log('unsubscribed') } }) }\<close>
\<close>

definition Observable_from :: "'a list \<Rightarrow> ('a, 'e, 'u) Observable" where
  "Observable_from values =
     \<lparr>subscribeFn = (\<lambda>s.
        and_then (forEach Observer_next values s) (\<lambda>s1.
        and_then (Observer_complete s1) (\<lambda>s2.
        Inr (log_unsubscribed, s2))))\<rparr>"

text \<open>
  \<^verbatim>\<open>subscribe(handlers) { const observer = new Observer<T>(handlers);
       const unsub = this._subscribeFn(observer); observer.setUnsubscribe(unsub);
       return { unsubscribe: () => observer.unsubscribe() } }\<close>

  The Subscription is a closure over the Observer, so the configuration that holds the
  Observer is what \<^verbatim>\<open>subscribe\<close> returns here. The call is made in a world \<open>w\<close>; the
  log of the new Observer starts empty.
\<close>

definition fresh :: "('a, 'e, 'u) ObserverHandlers \<Rightarrow> 'u world \<Rightarrow> ('a, 'e, 'u) config" where
  "fresh hs w = \<lparr>observer = new_Observer hs, world = w, trace = []\<rparr>"

definition Observable_subscribe ::
  "('a, 'e, 'u) Observable \<Rightarrow> ('a, 'e, 'u) ObserverHandlers \<Rightarrow> 'u world
    \<Rightarrow> 'e exn + ('a, 'e, 'u) config" where
  "Observable_subscribe obs hs w =
     (case subscribeFn obs (fresh hs w) of
        Inl x \<Rightarrow> Inl x
      | Inr (unsub, s) \<Rightarrow> Inr (Observer_setUnsubscribe unsub s))"

text \<open>\<^verbatim>\<open>subscription.unsubscribe()\<close> is \<^verbatim>\<open>() => observer.unsubscribe()\<close>.\<close>

definition Subscription_unsubscribe ::
  "('a, 'e, 'u) config \<Rightarrow> 'e exn + ('a, 'e, 'u) config" where
  "Subscription_unsubscribe s = Observer_unsubscribe s"

section \<open>Subscribe functions as sequences of calls\<close>

text \<open>
  A subscribe function receives the Observer and can only use its public methods, none of
  which returns a value. So one run of a subscribe function is the sequence of the
  method calls it makes, and the teardown it returns at the end. \<^verbatim>\<open>setUnsubscribe\<close> is
  left to \<^verbatim>\<open>subscribe\<close>, which is its only caller in the source.
\<close>

datatype ('a, 'e) signal = Next 'a | Error 'e | Complete | Unsubscribe

primrec deliver ::
  "('a, 'e) signal \<Rightarrow> ('a, 'e, 'u) config \<Rightarrow> 'e exn + ('a, 'e, 'u) config" where
  "deliver (Next v) s = Observer_next v s"
| "deliver (Error err) s = Observer_error err s"
| "deliver Complete s = Observer_complete s"
| "deliver Unsubscribe s = Observer_unsubscribe s"

definition run ::
  "('a, 'e) signal list \<Rightarrow> ('a, 'e, 'u) config \<Rightarrow> 'e exn + ('a, 'e, 'u) config" where
  "run cs s = forEach deliver cs s"

definition scripted ::
  "('a, 'e) signal list \<Rightarrow> ('e, 'u) action \<Rightarrow> ('a, 'e, 'u) Observable" where
  "scripted cs unsub =
     \<lparr>subscribeFn = (\<lambda>s. and_then (run cs s) (\<lambda>s1. Inr (unsub, s1)))\<rparr>"

text \<open>A callback that never throws, from the function it computes on the world.\<close>

definition returning :: "('u world \<Rightarrow> 'u world) \<Rightarrow> ('e, 'u) action" where
  "returning f w = Inr (f w)"

section \<open>Observations and example consumers\<close>

text \<open>The entries of the log that record a terminal signal reaching its handler.\<close>

primrec terminal :: "('a, 'e) event \<Rightarrow> bool" where
  "terminal (NextCalled v) = False"
| "terminal (ErrorCalled err) = True"
| "terminal CompleteCalled = True"
| "terminal TeardownCalled = False"
| "terminal TeardownInstalled = False"

text \<open>
  What a caller can tell of a result: the exception, or whether the Observer is closed, the
  log and the world.
\<close>

definition observed ::
  "'e exn + ('a, 'e, 'u) config \<Rightarrow> 'e exn + bool \<times> ('a, 'e) event list \<times> 'u world" where
  "observed r =
     (case r of
        Inl x \<Rightarrow> Inl x
      | Inr s \<Rightarrow> Inr (isUnsubscribed (observer s), trace s, world s))"

text \<open>The handler record \<^verbatim>\<open>{}\<close>: no handler is present.\<close>

definition no_handlers :: "('a, 'e, 'u) ObserverHandlers" where
  "no_handlers = \<lparr>handlers_next = None, handlers_error = None, handlers_complete = None\<rparr>"

text \<open>
  A consumer that records what it receives: \<^verbatim>\<open>next\<close> collects the values into a list,
  \<^verbatim>\<open>error\<close> collects the error values, \<^verbatim>\<open>complete\<close> sets a flag.
\<close>

record recorded =
  seen_values :: "nat list"
  seen_errors :: "string list"
  seen_complete :: bool

definition recorder :: "(nat, string, recorded) ObserverHandlers" where
  "recorder =
     \<lparr>handlers_next = Some (\<lambda>v. returning
        (\<lambda>w. w\<lparr>user := (user w)\<lparr>seen_values := seen_values (user w) @ [v]\<rparr>\<rparr>)),
      handlers_error = Some (\<lambda>err. returning
        (\<lambda>w. w\<lparr>user := (user w)\<lparr>seen_errors := seen_errors (user w) @ [err]\<rparr>\<rparr>)),
      handlers_complete = Some (returning
        (\<lambda>w. w\<lparr>user := (user w)\<lparr>seen_complete := True\<rparr>\<rparr>))\<rparr>"

text \<open>A consumer whose \<^verbatim>\<open>error\<close> handler rethrows what it gets and whose \<^verbatim>\<open>complete\<close> handler throws.\<close>

definition throwing :: "(nat, string, unit) ObserverHandlers" where
  "throwing =
     \<lparr>handlers_next = None,
      handlers_error = Some (\<lambda>err w. Inl err),
      handlers_complete = Some (\<lambda>w. Inl ''complete failed'')\<rparr>"

text \<open>The world before anything has happened: an empty console, nothing recorded.\<close>

definition quiet :: "recorded world" where
  "quiet = \<lparr>console = [], user = \<lparr>seen_values = [], seen_errors = [], seen_complete = False\<rparr>\<rparr>"

section \<open>Callbacks that reach the Observer\<close>

text \<open>
  Above, a callback is an action on the world, and a call that throws yields the exception
  alone. That is all a callback can be for \<^verbatim>\<open>Observable.from\<close>, which keeps its Observer to
  itself. In general the Observer's five methods are public: a subscribe function may call
  any of them, \<^verbatim>\<open>setUnsubscribe\<close> included, may wrap a call in \<^verbatim>\<open>try/catch\<close>, and may hand
  the Observer to the handlers and to the teardown. And when a handler throws, the Observer
  is still there, with its flag as the handler left it.

  So in this section a callback is a piece of code over the world and the Observer's
  methods, an exception carries the configuration it was thrown in, and the log gets its
  entry when a callback is invoked, before its body runs.
\<close>

datatype ('a, 'e, 'u) code =
    Act "('e, 'u) action"
  | CallNext 'a
  | CallError 'e
  | CallComplete
  | CallUnsubscribe
  | CallSetUnsubscribe "('a, 'e, 'u) code list"
  | TryCatch "('a, 'e, 'u) code list" "'e exn \<Rightarrow> ('a, 'e, 'u) code list"
  | Choose "'u world \<Rightarrow> ('a, 'e, 'u) code list"

text \<open>
  \<open>Act g\<close> changes the world or throws; the five calls are the Observer's methods, on the
  callback's own Observer (\<open>CallSetUnsubscribe body\<close> is \<^verbatim>\<open>setUnsubscribe(() => body)\<close>);
  \<open>TryCatch body handler\<close> is \<^verbatim>\<open>try { body } catch (x) { handler x }\<close>; \<open>Choose f\<close> goes on
  as the world says. A callback body is a list of these, run in order.

  \<^verbatim>\<open>interface ObserverHandlers<T>\<close> and \<^verbatim>\<open>class Observer<T>\<close> again, with such callbacks; the
  world and the log are kept with the Observer's fields.
\<close>

record ('a, 'e, 'u) code_handlers =
  code_next :: "('a \<Rightarrow> ('a, 'e, 'u) code list) option"
  code_error :: "('e \<Rightarrow> ('a, 'e, 'u) code list) option"
  code_complete :: "('a, 'e, 'u) code list option"

record ('a, 'e, 'u) live =
  live_handlers :: "('a, 'e, 'u) code_handlers"
  live_isUnsubscribed :: bool
  live_unsubscribe :: "('a, 'e, 'u) code list option"
  live_world :: "'u world"
  live_trace :: "('a, 'e) event list"

text \<open>
  How a call ends: it returns; or it throws, in the configuration reached; or its callbacks
  call one another deeper than the bound the run was given.
\<close>

datatype ('a, 'e, 'u) outcome =
    Returned "('a, 'e, 'u) live"
  | Raised "'e exn" "('a, 'e, 'u) live"
  | Unfinished

type_synonym ('a, 'e, 'u) runner =
  "('a, 'e, 'u) code list \<Rightarrow> ('a, 'e, 'u) live \<Rightarrow> ('a, 'e, 'u) outcome"

text \<open>
  The methods take the runner of callback bodies as their first argument. Calling an
  optional callback: the \<^verbatim>\<open>TypeError\<close> if it is absent, else the log entry and then the body.
\<close>

definition invoke ::
  "('a, 'e, 'u) runner \<Rightarrow> ('a, 'e) event \<Rightarrow> ('a, 'e, 'u) code list option
    \<Rightarrow> ('a, 'e, 'u) live \<Rightarrow> ('a, 'e, 'u) outcome" where
  "invoke exec_body ev f s =
     (case f of
        None \<Rightarrow> Raised TypeError s
      | Some body \<Rightarrow> exec_body body (s\<lparr>live_trace := live_trace s @ [ev]\<rparr>))"

text \<open>Two statements in sequence: the second runs only if the first returned.\<close>

definition seq ::
  "('a, 'e, 'u) outcome \<Rightarrow> (('a, 'e, 'u) live \<Rightarrow> ('a, 'e, 'u) outcome)
    \<Rightarrow> ('a, 'e, 'u) outcome" where
  "seq r f = (case r of Returned s \<Rightarrow> f s | Raised x s \<Rightarrow> Raised x s | Unfinished \<Rightarrow> Unfinished)"

text \<open>
  \<^verbatim>\<open>next(value) { if (!this.isUnsubscribed && this.handlers.next) this.handlers.next(value) }\<close>
\<close>

definition next_live ::
  "('a, 'e, 'u) runner \<Rightarrow> 'a \<Rightarrow> ('a, 'e, 'u) live \<Rightarrow> ('a, 'e, 'u) outcome" where
  "next_live exec_body v s =
     (if \<not> live_isUnsubscribed s \<and> code_next (live_handlers s) \<noteq> None
      then invoke exec_body (NextCalled v) (map_option (\<lambda>h. h v) (code_next (live_handlers s))) s
      else Returned s)"

text \<open>
  \<^verbatim>\<open>unsubscribe() { this.isUnsubscribed = true; if (this._unsubscribe) this._unsubscribe() }\<close>
\<close>

definition unsubscribe_live ::
  "('a, 'e, 'u) runner \<Rightarrow> ('a, 'e, 'u) live \<Rightarrow> ('a, 'e, 'u) outcome" where
  "unsubscribe_live exec_body s =
     (let s1 = s\<lparr>live_isUnsubscribed := True\<rparr>
      in if live_unsubscribe s1 \<noteq> None
         then invoke exec_body TeardownCalled (live_unsubscribe s1) s1
         else Returned s1)"

text \<open>
  \<^verbatim>\<open>error(error) { if (!this.isUnsubscribed) {
       if (this.handlers.error) this.handlers.error(error); this.unsubscribe() } }\<close>
\<close>

definition error_live ::
  "('a, 'e, 'u) runner \<Rightarrow> 'e \<Rightarrow> ('a, 'e, 'u) live \<Rightarrow> ('a, 'e, 'u) outcome" where
  "error_live exec_body err s =
     (if \<not> live_isUnsubscribed s
      then seq
             (if code_error (live_handlers s) \<noteq> None
              then invoke exec_body (ErrorCalled err)
                     (map_option (\<lambda>h. h err) (code_error (live_handlers s))) s
              else Returned s)
             (unsubscribe_live exec_body)
      else Returned s)"

text \<open>
  \<^verbatim>\<open>complete() { if (!this.isUnsubscribed) {
       if (this.handlers.complete) this.handlers.complete(); this.unsubscribe() } }\<close>
\<close>

definition complete_live ::
  "('a, 'e, 'u) runner \<Rightarrow> ('a, 'e, 'u) live \<Rightarrow> ('a, 'e, 'u) outcome" where
  "complete_live exec_body s =
     (if \<not> live_isUnsubscribed s
      then seq
             (if code_complete (live_handlers s) \<noteq> None
              then invoke exec_body CompleteCalled (code_complete (live_handlers s)) s
              else Returned s)
             (unsubscribe_live exec_body)
      else Returned s)"

text \<open>\<^verbatim>\<open>setUnsubscribe(unsub) { this._unsubscribe = unsub }\<close>\<close>

definition setUnsubscribe_live ::
  "('a, 'e, 'u) code list \<Rightarrow> ('a, 'e, 'u) live \<Rightarrow> ('a, 'e, 'u) live" where
  "setUnsubscribe_live unsub s =
     s\<lparr>live_unsubscribe := Some unsub, live_trace := live_trace s @ [TeardownInstalled]\<rparr>"

text \<open>One statement of a callback body.\<close>

definition step ::
  "('a, 'e, 'u) runner \<Rightarrow> ('a, 'e, 'u) code \<Rightarrow> ('a, 'e, 'u) live \<Rightarrow> ('a, 'e, 'u) outcome" where
  "step exec_body c s =
     (case c of
        Act g \<Rightarrow>
          (case g (live_world s) of
             Inl x \<Rightarrow> Raised (Thrown x) s
           | Inr w \<Rightarrow> Returned (s\<lparr>live_world := w\<rparr>))
      | CallNext v \<Rightarrow> next_live exec_body v s
      | CallError err \<Rightarrow> error_live exec_body err s
      | CallComplete \<Rightarrow> complete_live exec_body s
      | CallUnsubscribe \<Rightarrow> unsubscribe_live exec_body s
      | CallSetUnsubscribe unsub \<Rightarrow> Returned (setUnsubscribe_live unsub s)
      | TryCatch body handler \<Rightarrow>
          (case exec_body body s of
             Raised x s' \<Rightarrow> exec_body (handler x) s'
           | r \<Rightarrow> r)
      | Choose f \<Rightarrow> exec_body (f (live_world s)) s)"

text \<open>
  Running a body. A handler may call a method whose handler calls a method, without end, so
  the run is bounded: \<open>exec n\<close> gives up (\<open>Unfinished\<close>) on a body that needs more than \<open>n\<close>
  statements in sequence or calls nested deeper than \<open>n\<close>. A run that does not give up is not
  changed by a larger bound (lemma \<open>exec_more_fuel\<close>).
\<close>

primrec exec :: "nat \<Rightarrow> ('a, 'e, 'u) code list \<Rightarrow> ('a, 'e, 'u) live \<Rightarrow> ('a, 'e, 'u) outcome" where
  "exec 0 cs s = (case cs of [] \<Rightarrow> Returned s | c # cs' \<Rightarrow> Unfinished)"
| "exec (Suc n) cs s =
     (case cs of [] \<Rightarrow> Returned s | c # cs' \<Rightarrow> seq (step (exec n) c s) (exec n cs'))"

text \<open>
  A subscribe function, \<^verbatim>\<open>(observer) => { ...; return unsub }\<close>: what it does with the
  Observer, and the teardown it returns.
\<close>

record ('a, 'e, 'u) producer =
  produce :: "('a, 'e, 'u) code list"
  teardown :: "('a, 'e, 'u) code list"

text \<open>The subscribe function of \<^verbatim>\<open>Observable.from(values)\<close>.\<close>

definition from_live :: "'a list \<Rightarrow> ('a, 'e, 'u) producer" where
  "from_live values =
     \<lparr>produce = map CallNext values @ [CallComplete], teardown = [Act log_unsubscribed]\<rparr>"

text \<open>\<^verbatim>\<open>new Observer<T>(handlers)\<close>, in the world \<open>w\<close> and with an empty log.\<close>

definition new_live :: "('a, 'e, 'u) code_handlers \<Rightarrow> 'u world \<Rightarrow> ('a, 'e, 'u) live" where
  "new_live hs w =
     \<lparr>live_handlers = hs, live_isUnsubscribed = False, live_unsubscribe = None,
      live_world = w, live_trace = []\<rparr>"

text \<open>
  \<^verbatim>\<open>subscribe(handlers) { const observer = new Observer<T>(handlers);
       const unsub = this._subscribeFn(observer); observer.setUnsubscribe(unsub);
       return { unsubscribe: () => observer.unsubscribe() } }\<close>

  If the subscribe function throws, so does \<^verbatim>\<open>subscribe\<close>, before \<^verbatim>\<open>setUnsubscribe\<close>.
\<close>

definition subscribe_live ::
  "nat \<Rightarrow> ('a, 'e, 'u) producer \<Rightarrow> ('a, 'e, 'u) code_handlers \<Rightarrow> 'u world
    \<Rightarrow> ('a, 'e, 'u) outcome" where
  "subscribe_live n p hs w =
     seq (exec n (produce p) (new_live hs w))
       (\<lambda>s. Returned (setUnsubscribe_live (teardown p) s))"

text \<open>A property of the configuration in which a call ended, however it ended.\<close>

definition after :: "(('a, 'e, 'u) live \<Rightarrow> bool) \<Rightarrow> ('a, 'e, 'u) outcome \<Rightarrow> bool" where
  "after P r = (case r of Returned s \<Rightarrow> P s | Raised x s \<Rightarrow> P s | Unfinished \<Rightarrow> True)"

text \<open>
  The handlers are \<open>hs\<close>, and the log holds no terminal handler invocation while the
  Observer is open and at most one once it is closed.
\<close>

definition settled :: "('a, 'e, 'u) code_handlers \<Rightarrow> ('a, 'e, 'u) live \<Rightarrow> bool" where
  "settled hs s \<longleftrightarrow>
     live_handlers s = hs \<and>
     length (filter terminal (live_trace s)) \<le> (if live_isUnsubscribed s then 1 else 0)"

text \<open>
  The callbacks of the first sections are the callbacks here that consist of one action:
  handlers, signals and configurations carry over.
\<close>

definition plainly :: "('a, 'e, 'u) ObserverHandlers \<Rightarrow> ('a, 'e, 'u) code_handlers" where
  "plainly hs =
     \<lparr>code_next = map_option (\<lambda>h v. [Act (h v)]) (handlers_next hs),
      code_error = map_option (\<lambda>h err. [Act (h err)]) (handlers_error hs),
      code_complete = map_option (\<lambda>h. [Act h]) (handlers_complete hs)\<rparr>"

primrec call_of :: "('a, 'e) signal \<Rightarrow> ('a, 'e, 'u) code" where
  "call_of (Next v) = CallNext v"
| "call_of (Error err) = CallError err"
| "call_of Complete = CallComplete"
| "call_of Unsubscribe = CallUnsubscribe"

definition alive :: "('a, 'e, 'u) config \<Rightarrow> ('a, 'e, 'u) live" where
  "alive s =
     \<lparr>live_handlers = plainly (handlers (observer s)),
      live_isUnsubscribed = isUnsubscribed (observer s),
      live_unsubscribe = map_option (\<lambda>unsub. [Act unsub]) (private_unsubscribe (observer s)),
      live_world = world s,
      live_trace = trace s\<rparr>"

text \<open>\<^verbatim>\<open>try { body } catch { }\<close>: an exception of the body is dropped.\<close>

definition swallowing :: "('a, 'e, 'u) code list \<Rightarrow> ('a, 'e, 'u) code" where
  "swallowing body = TryCatch body (\<lambda>x. [])"

text \<open>
  The recording consumer with an \<^verbatim>\<open>error\<close> handler that records the error and then throws
  it, and with one that calls \<^verbatim>\<open>next(7)\<close> and \<^verbatim>\<open>complete()\<close> on the Observer it was handed.
\<close>

definition rethrowing :: "(nat, string, recorded) code_handlers" where
  "rethrowing =
     (plainly recorder)\<lparr>code_error := Some (\<lambda>err.
        [Act (returning (\<lambda>w. w\<lparr>user := (user w)\<lparr>seen_errors := seen_errors (user w) @ [err]\<rparr>\<rparr>)),
         Act (\<lambda>w. Inl err)])\<rparr>"


section \<open>Basic facts about the methods\<close>

lemmas method_defs =
  Observer_next_def Observer_error_def Observer_complete_def Observer_unsubscribe_def
  Observer_setUnsubscribe_def Subscription_unsubscribe_def call_def Let_def

lemmas subscribe_defs =
  Observable_subscribe_def Observable_from_def scripted_def fresh_def new_Observer_def
  log_unsubscribed_def returning_def observed_def

lemma and_then_Inl [simp]: "and_then (Inl x) f = Inl x"
  by (simp add: and_then_def)

lemma and_then_Inr [simp]: "and_then (Inr s) f = f s"
  by (simp add: and_then_def)

lemma and_then_eq_Inr: "and_then r f = Inr t \<longleftrightarrow> (\<exists>s. r = Inr s \<and> f s = Inr t)"
  by (cases r) simp_all

lemma call_eq_Inr:
  "call ev f s = Inr s' \<longleftrightarrow>
     (\<exists>g w. f = Some g \<and> g (world s) = Inr w \<and> s' = s\<lparr>world := w, trace := trace s @ [ev]\<rparr>)"
  by (auto simp: call_def split: option.splits sum.splits)

lemma Observer_next_closed: "isUnsubscribed (observer s) \<Longrightarrow> Observer_next v s = Inr s"
  by (simp add: Observer_next_def)

lemma Observer_error_closed: "isUnsubscribed (observer s) \<Longrightarrow> Observer_error err s = Inr s"
  by (simp add: Observer_error_def)

lemma Observer_complete_closed: "isUnsubscribed (observer s) \<Longrightarrow> Observer_complete s = Inr s"
  by (simp add: Observer_complete_def)

lemma Observer_next_Inr:
  "Observer_next v s = Inr s' \<Longrightarrow>
     observer s' = observer s \<and>
     trace s' = trace s
       @ (if \<not> isUnsubscribed (observer s) \<and> handlers_next (handlers (observer s)) \<noteq> None
          then [NextCalled v] else [])"
  by (auto simp: Observer_next_def call_eq_Inr split: if_splits)

lemma Observer_unsubscribe_Inr:
  "Observer_unsubscribe s = Inr s' \<Longrightarrow>
     observer s' = (observer s)\<lparr>isUnsubscribed := True\<rparr> \<and>
     trace s' = trace s @ (if private_unsubscribe (observer s) \<noteq> None then [TeardownCalled] else [])"
  by (auto simp: Observer_unsubscribe_def Let_def call_eq_Inr split: if_splits)

lemma Observer_unsubscribe_unset:
  "private_unsubscribe (observer s) = None \<Longrightarrow>
     Observer_unsubscribe s = Inr (s\<lparr>observer := (observer s)\<lparr>isUnsubscribed := True\<rparr>\<rparr>)"
  by (simp add: Observer_unsubscribe_def Let_def)

lemma Observer_error_Inr:
  "Observer_error err s = Inr s' \<Longrightarrow>
     (isUnsubscribed (observer s) \<and> s' = s) \<or>
     (\<not> isUnsubscribed (observer s) \<and>
      observer s' = (observer s)\<lparr>isUnsubscribed := True\<rparr> \<and>
      trace s' = trace s
        @ (if handlers_error (handlers (observer s)) \<noteq> None then [ErrorCalled err] else [])
        @ (if private_unsubscribe (observer s) \<noteq> None then [TeardownCalled] else []))"
  by (auto simp: Observer_error_def and_then_eq_Inr call_eq_Inr
      dest!: Observer_unsubscribe_Inr split: if_splits)

lemma Observer_complete_Inr:
  "Observer_complete s = Inr s' \<Longrightarrow>
     (isUnsubscribed (observer s) \<and> s' = s) \<or>
     (\<not> isUnsubscribed (observer s) \<and>
      observer s' = (observer s)\<lparr>isUnsubscribed := True\<rparr> \<and>
      trace s' = trace s
        @ (if handlers_complete (handlers (observer s)) \<noteq> None then [CompleteCalled] else [])
        @ (if private_unsubscribe (observer s) \<noteq> None then [TeardownCalled] else []))"
  by (auto simp: Observer_complete_def and_then_eq_Inr call_eq_Inr
      dest!: Observer_unsubscribe_Inr split: if_splits)

lemma deliver_Inr:
  assumes "deliver c s = Inr s'"
  shows "handlers (observer s') = handlers (observer s) \<and>
     private_unsubscribe (observer s') = private_unsubscribe (observer s) \<and>
     (isUnsubscribed (observer s) \<longrightarrow> isUnsubscribed (observer s')) \<and>
     count_list (trace s') TeardownInstalled = count_list (trace s) TeardownInstalled \<and>
     (private_unsubscribe (observer s) = None \<longrightarrow>
        count_list (trace s') TeardownCalled = count_list (trace s) TeardownCalled)"
proof (cases c)
  case (Next v)
  then show ?thesis using assms Observer_next_Inr [of v s s'] by auto
next
  case (Error err)
  then show ?thesis using assms Observer_error_Inr [of err s s'] by auto
next
  case Complete
  then show ?thesis using assms Observer_complete_Inr [of s s'] by auto
next
  case Unsubscribe
  then show ?thesis using assms Observer_unsubscribe_Inr [of s s'] by auto
qed

lemma run_Nil [simp]: "run [] s = Inr s"
  by (simp add: run_def)

lemma run_forEach: "run cs = forEach deliver cs"
  by (rule ext) (simp add: run_def)

lemma run_Cons [simp]: "run (c # cs) s = and_then (deliver c s) (run cs)"
  by (simp add: run_forEach)

lemma run_append: "run (cs @ ds) s = and_then (run cs s) (run ds)"
  by (induction cs arbitrary: s) (auto simp: and_then_def split: sum.splits)

lemma run_Inr:
  "run cs s = Inr s' \<Longrightarrow>
     handlers (observer s') = handlers (observer s) \<and>
     private_unsubscribe (observer s') = private_unsubscribe (observer s) \<and>
     (isUnsubscribed (observer s) \<longrightarrow> isUnsubscribed (observer s')) \<and>
     count_list (trace s') TeardownInstalled = count_list (trace s) TeardownInstalled \<and>
     (private_unsubscribe (observer s) = None \<longrightarrow>
        count_list (trace s') TeardownCalled = count_list (trace s) TeardownCalled)"
proof (induction cs arbitrary: s)
  case Nil
  then show ?case by simp
next
  case (Cons c cs)
  from Cons.prems obtain s1 where d: "deliver c s = Inr s1" and r: "run cs s1 = Inr s'"
    by (auto simp: and_then_eq_Inr)
  from deliver_Inr [OF d] Cons.IH [OF r] show ?case by simp
qed

lemma subscribe_scripted_Inr:
  "Observable_subscribe (scripted cs unsub) hs w = Inr s \<longleftrightarrow>
     (\<exists>s0. run cs (fresh hs w) = Inr s0 \<and> s = Observer_setUnsubscribe unsub s0)"
  by (auto simp: Observable_subscribe_def scripted_def and_then_def split: sum.splits)

lemma Observable_from_scripted:
  "Observable_from vs = scripted (map Next vs @ [Complete]) log_unsubscribed"
proof -
  have "forEach Observer_next vs s = run (map Next vs) s" for s :: "('a, 'b, 'c) config"
    by (induction vs arbitrary: s) (auto simp: and_then_def split: sum.splits)
  then show ?thesis
    by (simp add: Observable_from_def scripted_def run_append fun_eq_iff and_then_def
        split: sum.splits)
qed

lemma next_run_Inr:
  "run (map Next vs) s = Inr s' \<Longrightarrow>
     observer s' = observer s \<and>
     trace s' = trace s
       @ (if \<not> isUnsubscribed (observer s) \<and> handlers_next (handlers (observer s)) \<noteq> None
          then map NextCalled vs else [])"
proof (induction vs arbitrary: s)
  case Nil
  then show ?case by simp
next
  case (Cons v vs)
  from Cons.prems obtain s1 where d: "Observer_next v s = Inr s1" and r: "run (map Next vs) s1 = Inr s'"
    by (auto simp: and_then_eq_Inr)
  from Observer_next_Inr [OF d] Cons.IH [OF r] show ?case by simp
qed

lemma next_run_returning:
  "\<not> isUnsubscribed (observer s) \<Longrightarrow>
   handlers_next (handlers (observer s)) = Some (\<lambda>v. returning (fn v)) \<Longrightarrow>
   run (map Next vs) s = Inr (s\<lparr>world := fold fn vs (world s), trace := trace s @ map NextCalled vs\<rparr>)"
proof (induction vs arbitrary: s)
  case Nil
  then show ?case by simp
next
  case (Cons v vs)
  let ?s1 = "s\<lparr>world := fn v (world s), trace := trace s @ [NextCalled v]\<rparr>"
  have d: "deliver (Next v) s = Inr ?s1"
    using Cons.prems by (simp add: Observer_next_def call_def returning_def)
  have "run (map Next vs) ?s1 =
      Inr (?s1\<lparr>world := fold fn vs (world ?s1), trace := trace ?s1 @ map NextCalled vs\<rparr>)"
    using Cons.prems by (intro Cons.IH) simp_all
  with d show ?case by simp
qed

lemma run_closed:
  "isUnsubscribed (observer s) \<Longrightarrow> Unsubscribe \<notin> set cs \<Longrightarrow> run cs s = Inr s"
proof (induction cs)
  case Nil
  then show ?case by simp
next
  case (Cons c cs)
  then have "deliver c s = Inr s"
    by (cases c) (simp_all add: Observer_next_closed Observer_error_closed Observer_complete_closed)
  with Cons show ?case by simp
qed

lemma Observer_unsubscribe_no_TypeError: "Observer_unsubscribe s \<noteq> Inl TypeError"
  by (auto simp: Observer_unsubscribe_def Let_def call_def split: sum.splits)

lemma from_production_Inr:
  assumes "run (map Next vs @ [Complete]) (fresh hs w) = Inr s0"
  shows "observer s0 = \<lparr>handlers = hs, isUnsubscribed = True, private_unsubscribe = None\<rparr>
         \<and> trace s0 =
             (if handlers_next hs \<noteq> None then map NextCalled vs else [])
             @ (if handlers_complete hs \<noteq> None then [CompleteCalled] else [])"
proof -
  from assms obtain s1 where n: "run (map Next vs) (fresh hs w) = Inr s1"
    and c: "Observer_complete s1 = Inr s0"
    by (auto simp: run_append and_then_eq_Inr)
  from next_run_Inr [OF n]
  have s1: "observer s1 = new_Observer hs"
    "trace s1 = (if handlers_next hs \<noteq> None then map NextCalled vs else [])"
    by (simp_all add: fresh_def new_Observer_def)
  from Observer_complete_Inr [OF c] s1 show ?thesis
    by (simp add: new_Observer_def)
qed

lemma subscribe_from_Inr:
  assumes "Observable_subscribe (Observable_from vs) hs w = Inr s"
  shows "observer s =
           \<lparr>handlers = hs, isUnsubscribed = True, private_unsubscribe = Some log_unsubscribed\<rparr>
         \<and> trace s =
             (if handlers_next hs \<noteq> None then map NextCalled vs else [])
             @ (if handlers_complete hs \<noteq> None then [CompleteCalled] else [])
             @ [TeardownInstalled]"
proof -
  from assms obtain s0 where r: "run (map Next vs @ [Complete]) (fresh hs w) = Inr s0"
    and s: "s = Observer_setUnsubscribe log_unsubscribed s0"
    by (auto simp: Observable_from_scripted subscribe_scripted_Inr)
  from from_production_Inr [OF r] s show ?thesis
    by (simp add: Observer_setUnsubscribe_def)
qed

section \<open>Facts about callbacks that reach the Observer\<close>

lemma seq_simps [simp]:
  "seq (Returned s) f = f s" "seq (Raised x s) f = Raised x s" "seq Unfinished f = Unfinished"
  by (simp_all add: seq_def)

lemma after_simps [simp]:
  "after P (Returned s) = P s" "after P (Raised x s) = P s" "after P Unfinished = True"
  by (simp_all add: after_def)

lemma after_seq: "after P r \<Longrightarrow> (\<And>s. P s \<Longrightarrow> after Q (f s)) \<Longrightarrow> (\<And>s. P s \<Longrightarrow> Q s) \<Longrightarrow> after Q (seq r f)"
  by (cases r) simp_all

lemma step_invariant:
  assumes ex: "\<And>cs s. P s \<Longrightarrow> after P (ex cs s)"
    and world: "\<And>s w. P s \<Longrightarrow> P (s\<lparr>live_world := w\<rparr>)"
    and close: "\<And>s. P s \<Longrightarrow> P (s\<lparr>live_isUnsubscribed := True\<rparr>)"
    and handler: "\<And>s ev. P s \<Longrightarrow> \<not> live_isUnsubscribed s \<Longrightarrow> ev \<noteq> TeardownCalled \<Longrightarrow>
        ev \<noteq> TeardownInstalled \<Longrightarrow> P (s\<lparr>live_trace := live_trace s @ [ev]\<rparr>)"
    and torn: "\<And>s. P s \<Longrightarrow> live_isUnsubscribed s \<Longrightarrow> live_unsubscribe s \<noteq> None \<Longrightarrow>
        P (s\<lparr>live_trace := live_trace s @ [TeardownCalled]\<rparr>)"
    and install: "\<And>s t. P s \<Longrightarrow> P (setUnsubscribe_live t s)"
    and "P s"
  shows "after P (step ex c s)"
proof -
  have unsub: "after P (unsubscribe_live ex s')" if "P s'" for s'
    using that close [OF that] torn [of "s'\<lparr>live_isUnsubscribed := True\<rparr>"] ex
    by (auto simp: unsubscribe_live_def Let_def invoke_def)
  show ?thesis
  proof (cases c)
    case (Act g)
    then show ?thesis using \<open>P s\<close> world by (simp add: step_def split: sum.splits)
  next
    case (CallNext v)
    then show ?thesis using \<open>P s\<close> handler [of s "NextCalled v"] ex
      by (auto simp: step_def next_live_def invoke_def)
  next
    case (CallError err)
    have "after P (if code_error (live_handlers s) \<noteq> None
              then invoke ex (ErrorCalled err)
                     (map_option (\<lambda>h. h err) (code_error (live_handlers s))) s
              else Returned s)" if "\<not> live_isUnsubscribed s"
      using \<open>P s\<close> that handler [of s "ErrorCalled err"] ex by (auto simp: invoke_def)
    then show ?thesis using CallError \<open>P s\<close> unsub
      by (auto simp: step_def error_live_def intro!: after_seq [where P = P])
  next
    case CallComplete
    have "after P (if code_complete (live_handlers s) \<noteq> None
              then invoke ex CompleteCalled (code_complete (live_handlers s)) s
              else Returned s)" if "\<not> live_isUnsubscribed s"
      using \<open>P s\<close> that handler [of s CompleteCalled] ex by (auto simp: invoke_def)
    then show ?thesis using CallComplete \<open>P s\<close> unsub
      by (auto simp: step_def complete_live_def intro!: after_seq [where P = P])
  next
    case CallUnsubscribe
    then show ?thesis using unsub [OF \<open>P s\<close>] by (simp add: step_def)
  next
    case (CallSetUnsubscribe t)
    then show ?thesis using install [OF \<open>P s\<close>] by (simp add: step_def)
  next
    case (TryCatch body handler)
    from ex [OF \<open>P s\<close>, of body] show ?thesis
      using TryCatch ex by (cases "ex body s") (simp_all add: step_def)
  next
    case (Choose f)
    then show ?thesis using ex [OF \<open>P s\<close>] by (simp add: step_def)
  qed
qed

lemma exec_invariant:
  assumes world: "\<And>s w. P s \<Longrightarrow> P (s\<lparr>live_world := w\<rparr>)"
    and close: "\<And>s. P s \<Longrightarrow> P (s\<lparr>live_isUnsubscribed := True\<rparr>)"
    and handler: "\<And>s ev. P s \<Longrightarrow> \<not> live_isUnsubscribed s \<Longrightarrow> ev \<noteq> TeardownCalled \<Longrightarrow>
        ev \<noteq> TeardownInstalled \<Longrightarrow> P (s\<lparr>live_trace := live_trace s @ [ev]\<rparr>)"
    and torn: "\<And>s. P s \<Longrightarrow> live_isUnsubscribed s \<Longrightarrow> live_unsubscribe s \<noteq> None \<Longrightarrow>
        P (s\<lparr>live_trace := live_trace s @ [TeardownCalled]\<rparr>)"
    and install: "\<And>s t. P s \<Longrightarrow> P (setUnsubscribe_live t s)"
  shows "P s \<Longrightarrow> after P (exec n cs s)"
proof (induction n arbitrary: cs s)
  case 0
  then show ?case by (cases cs) simp_all
next
  case (Suc n)
  show ?case
  proof (cases cs)
    case Nil
    with Suc.prems show ?thesis by simp
  next
    case (Cons c cs')
    have "after P (step (exec n) c s)"
      by (rule step_invariant [where P = P, OF Suc.IH world close handler torn install Suc.prems])
    then have "after P (seq (step (exec n) c s) (exec n cs'))"
      by (rule after_seq) (auto intro: Suc.IH)
    with Cons show ?thesis by simp
  qed
qed

lemma closed_persists:
  "live_isUnsubscribed s \<Longrightarrow> after live_isUnsubscribed (exec n cs s)"
  by (rule exec_invariant) (simp_all add: setUnsubscribe_live_def)

lemma handlers_persist:
  "after (\<lambda>s'. live_handlers s' = live_handlers s) (exec n cs s)"
  by (rule exec_invariant [where P = "\<lambda>s'. live_handlers s' = live_handlers s"])
    (simp_all add: setUnsubscribe_live_def)

lemma teardown_needs_install:
  assumes "TeardownInstalled \<in> set (live_trace s) \<or>
      (live_unsubscribe s = None \<and> TeardownCalled \<notin> set (live_trace s))"
  shows "after (\<lambda>s'. TeardownInstalled \<in> set (live_trace s') \<or>
      (live_unsubscribe s' = None \<and> TeardownCalled \<notin> set (live_trace s'))) (exec n cs s)"
  by (rule exec_invariant [where P = "\<lambda>s'. TeardownInstalled \<in> set (live_trace s') \<or>
      (live_unsubscribe s' = None \<and> TeardownCalled \<notin> set (live_trace s'))", OF _ _ _ _ _ assms])
    (auto simp: setUnsubscribe_live_def)

lemma exec_Nil [simp]: "exec n [] s = Returned s"
  by (cases n) simp_all

lemma exec_Act:
  "exec (Suc n) [Act g] s =
     (case g (live_world s) of
        Inl x \<Rightarrow> Raised (Thrown x) s
      | Inr w \<Rightarrow> Returned (s\<lparr>live_world := w\<rparr>))"
  by (simp add: step_def split: sum.splits)

lemma exec_Act_cases:
  "exec n [Act (returning f)] s = Unfinished \<or>
   exec n [Act (returning f)] s = Returned (s\<lparr>live_world := f (live_world s)\<rparr>)"
  by (cases n) (simp_all add: step_def returning_def)

lemma unsubscribe_live_closed:
  "after live_isUnsubscribed (unsubscribe_live (exec n) s)"
  using closed_persists [of "s\<lparr>live_isUnsubscribed := True, live_trace := live_trace s @ [TeardownCalled]\<rparr>" n]
  by (auto simp: unsubscribe_live_def Let_def invoke_def)


lemma step_settled:
  assumes ex: "\<And>cs s. settled hs s \<Longrightarrow> after (settled hs) (ex cs s)"
    and plain: "\<And>f s. ex [Act (returning f)] s = Unfinished \<or>
        ex [Act (returning f)] s = Returned (s\<lparr>live_world := f (live_world s)\<rparr>)"
    and he: "code_error hs = map_option (\<lambda>f err. [Act (returning (f err))]) fe"
    and hc: "code_complete hs = map_option (\<lambda>f. [Act (returning f)]) fc"
    and s: "settled hs s"
  shows "after (settled hs) (step ex c s)"
proof -
  have unsub: "after (settled hs) (unsubscribe_live ex s')"
    if "live_handlers s' = hs" "length (filter terminal (live_trace s')) \<le> 1" for s'
  proof -
    have a: "settled hs (s'\<lparr>live_isUnsubscribed := True\<rparr>)"
      and b: "settled hs (s'\<lparr>live_isUnsubscribed := True,
          live_trace := live_trace s' @ [TeardownCalled]\<rparr>)"
      using that by (simp_all add: settled_def)
    from a ex [OF b] show ?thesis
      by (auto simp: unsubscribe_live_def Let_def invoke_def)
  qed
  have opened: "length (filter terminal (live_trace s)) = 0" if "\<not> live_isUnsubscribed s"
    using s that by (simp add: settled_def)
  have hs: "live_handlers s = hs"
    using s by (simp add: settled_def)
  show ?thesis
  proof (cases c)
    case (Act g)
    then show ?thesis using s by (simp add: step_def settled_def split: sum.splits)
  next
    case (CallNext v)
    have "settled hs (s\<lparr>live_trace := live_trace s @ [NextCalled v]\<rparr>)"
      using s by (simp add: settled_def)
    from ex [OF this] s CallNext show ?thesis
      by (auto simp: step_def next_live_def invoke_def)
  next
    case (CallError err)
    show ?thesis
    proof (cases "live_isUnsubscribed s")
      case True
      with s CallError show ?thesis by (simp add: step_def error_live_def)
    next
      case False
      note zero = opened [OF False]
      show ?thesis
      proof (cases fe)
        case None
        with he hs have "code_error (live_handlers s) = None" by simp
        with False CallError have "step ex c s = unsubscribe_live ex s"
          by (simp add: step_def error_live_def)
        with unsub [of s] hs zero show ?thesis by simp
      next
        case (Some f)
        let ?s1 = "s\<lparr>live_trace := live_trace s @ [ErrorCalled err]\<rparr>"
        from Some he hs have h: "code_error (live_handlers s) = Some (\<lambda>err. [Act (returning (f err))])"
          by simp
        with False CallError have eq: "step ex c s =
            seq (ex [Act (returning (f err))] ?s1) (unsubscribe_live ex)"
          by (simp add: step_def error_live_def invoke_def)
        from plain [of "f err" ?s1] show ?thesis
        proof
          assume "ex [Act (returning (f err))] ?s1 = Unfinished"
          with eq show ?thesis by simp
        next
          assume r: "ex [Act (returning (f err))] ?s1 =
              Returned (?s1\<lparr>live_world := f err (live_world ?s1)\<rparr>)"
          have "after (settled hs) (unsubscribe_live ex (?s1\<lparr>live_world := f err (live_world ?s1)\<rparr>))"
            using hs zero by (intro unsub) simp_all
          with eq r show ?thesis by simp
        qed
      qed
    qed
  next
    case CallComplete
    show ?thesis
    proof (cases "live_isUnsubscribed s")
      case True
      with s CallComplete show ?thesis by (simp add: step_def complete_live_def)
    next
      case False
      note zero = opened [OF False]
      show ?thesis
      proof (cases fc)
        case None
        with hc hs have "code_complete (live_handlers s) = None" by simp
        with False CallComplete have "step ex c s = unsubscribe_live ex s"
          by (simp add: step_def complete_live_def)
        with unsub [of s] hs zero show ?thesis by simp
      next
        case (Some f)
        let ?s1 = "s\<lparr>live_trace := live_trace s @ [CompleteCalled]\<rparr>"
        from Some hc hs have h: "code_complete (live_handlers s) = Some [Act (returning f)]"
          by simp
        with False CallComplete have eq: "step ex c s =
            seq (ex [Act (returning f)] ?s1) (unsubscribe_live ex)"
          by (simp add: step_def complete_live_def invoke_def)
        from plain [of f ?s1] show ?thesis
        proof
          assume "ex [Act (returning f)] ?s1 = Unfinished"
          with eq show ?thesis by simp
        next
          assume r: "ex [Act (returning f)] ?s1 =
              Returned (?s1\<lparr>live_world := f (live_world ?s1)\<rparr>)"
          have "after (settled hs) (unsubscribe_live ex (?s1\<lparr>live_world := f (live_world ?s1)\<rparr>))"
            using hs zero by (intro unsub) simp_all
          with eq r show ?thesis by simp
        qed
      qed
    qed
  next
    case CallUnsubscribe
    have "length (filter terminal (live_trace s)) \<le> 1"
      using s by (simp add: settled_def split: if_splits)
    with unsub [of s] hs CallUnsubscribe show ?thesis by (simp add: step_def)
  next
    case (CallSetUnsubscribe t)
    then show ?thesis using s by (simp add: step_def settled_def setUnsubscribe_live_def)
  next
    case (TryCatch body handler)
    from ex [OF s, of body] show ?thesis
      using TryCatch ex by (cases "ex body s") (simp_all add: step_def)
  next
    case (Choose f)
    then show ?thesis using ex [OF s] by (simp add: step_def)
  qed
qed

lemma exec_settled:
  assumes he: "code_error hs = map_option (\<lambda>f err. [Act (returning (f err))]) fe"
    and hc: "code_complete hs = map_option (\<lambda>f. [Act (returning f)]) fc"
  shows "settled hs s \<Longrightarrow> after (settled hs) (exec n cs s)"
proof (induction n arbitrary: cs s)
  case 0
  then show ?case by (cases cs) simp_all
next
  case (Suc n)
  show ?case
  proof (cases cs)
    case Nil
    with Suc.prems show ?thesis by simp
  next
    case (Cons c cs')
    have "after (settled hs) (step (exec n) c s)"
      by (rule step_settled [OF Suc.IH exec_Act_cases he hc Suc.prems])
    then have "after (settled hs) (seq (step (exec n) c s) (exec n cs'))"
      by (rule after_seq) (auto intro: Suc.IH)
    with Cons show ?thesis by simp
  qed
qed

lemmas live_defs =
  next_live_def error_live_def complete_live_def unsubscribe_live_def setUnsubscribe_live_def
  invoke_def step_def subscribe_live_def new_live_def from_live_def Let_def

lemma seq_finished:
  "seq r f \<noteq> Unfinished \<Longrightarrow> r \<noteq> Unfinished"
  by (cases r) simp_all

lemma step_more_fuel:
  assumes ex: "\<And>cs s. ex cs s \<noteq> Unfinished \<Longrightarrow> ex' cs s = ex cs s"
    and fin: "step ex c s \<noteq> Unfinished"
  shows "step ex' c s = step ex c s"
proof -
  have unsub: "unsubscribe_live ex' s' = unsubscribe_live ex s'"
    if "unsubscribe_live ex s' \<noteq> Unfinished" for s'
    using that ex by (auto simp: unsubscribe_live_def Let_def invoke_def)
  have sq: "seq (ex' b s') (unsubscribe_live ex') = seq (ex b s') (unsubscribe_live ex)"
    if "seq (ex b s') (unsubscribe_live ex) \<noteq> Unfinished" for b s'
  proof -
    from that have "ex b s' \<noteq> Unfinished" by (rule seq_finished)
    then have "ex' b s' = ex b s'" by (rule ex)
    with that unsub show ?thesis by (cases "ex b s'") simp_all
  qed
  show ?thesis
  proof (cases c)
    case (Act g)
    then show ?thesis by (simp add: step_def)
  next
    case (CallNext v)
    with fin ex show ?thesis by (auto simp: step_def next_live_def invoke_def)
  next
    case (CallError err)
    with fin sq unsub show ?thesis
      by (auto simp: step_def error_live_def invoke_def)
  next
    case CallComplete
    with fin sq unsub show ?thesis
      by (auto simp: step_def complete_live_def invoke_def)
  next
    case CallUnsubscribe
    with fin unsub show ?thesis by (simp add: step_def)
  next
    case (CallSetUnsubscribe t)
    then show ?thesis by (simp add: step_def)
  next
    case (TryCatch body handler)
    with fin have b: "ex body s \<noteq> Unfinished"
      by (auto simp: step_def)
    then have b': "ex' body s = ex body s" by (rule ex)
    show ?thesis
    proof (cases "ex body s")
      case (Returned s')
      with TryCatch b' show ?thesis by (simp add: step_def)
    next
      case (Raised x s')
      with TryCatch fin have "ex (handler x) s' \<noteq> Unfinished" by (simp add: step_def)
      then have "ex' (handler x) s' = ex (handler x) s'" by (rule ex)
      with TryCatch Raised b' show ?thesis by (simp add: step_def)
    next
      case Unfinished
      with b show ?thesis by simp
    qed
  next
    case (Choose f)
    with fin ex show ?thesis by (simp add: step_def)
  qed
qed

lemma exec_Suc_fuel:
  "exec n cs s \<noteq> Unfinished \<Longrightarrow> exec (Suc n) cs s = exec n cs s"
proof (induction n arbitrary: cs s)
  case 0
  then show ?case by (cases cs) simp_all
next
  case (Suc n)
  show ?case
  proof (cases cs)
    case Nil
    then show ?thesis by simp
  next
    case (Cons c cs')
    with Suc.prems have fin: "seq (step (exec n) c s) (exec n cs') \<noteq> Unfinished"
      by simp
    then have "step (exec n) c s \<noteq> Unfinished" by (rule seq_finished)
    then have st: "step (exec (Suc n)) c s = step (exec n) c s"
      by (rule step_more_fuel [rotated]) (rule Suc.IH)
    have "seq (step (exec n) c s) (exec (Suc n) cs') = seq (step (exec n) c s) (exec n cs')"
    proof (cases "step (exec n) c s")
      case (Returned s')
      with fin have "exec n cs' s' \<noteq> Unfinished" by simp
      then have "exec (Suc n) cs' s' = exec n cs' s'" by (rule Suc.IH)
      with Returned show ?thesis by simp
    qed simp_all
    with st Cons show ?thesis by simp
  qed
qed

lemma exec_more_fuel:
  "exec n cs s \<noteq> Unfinished \<Longrightarrow> exec (n + k) cs s = exec n cs s"
proof (induction k)
  case 0
  then show ?case by simp
next
  case (Suc k)
  then have "exec (n + k) cs s \<noteq> Unfinished" by simp
  then have "exec (Suc (n + k)) cs s = exec (n + k) cs s" by (rule exec_Suc_fuel)
  with Suc show ?case by (simp del: exec.simps)
qed



lemma production_without_install:
  assumes "exec n cs (new_live hs w) = Returned s0 \<or> exec n cs (new_live hs w) = Raised x s0"
    and "TeardownInstalled \<notin> set (live_trace s0)"
  shows "live_unsubscribe s0 = None \<and> TeardownCalled \<notin> set (live_trace s0)"
proof -
  have "after (\<lambda>s'. TeardownInstalled \<in> set (live_trace s') \<or>
      (live_unsubscribe s' = None \<and> TeardownCalled \<notin> set (live_trace s')))
      (exec n cs (new_live hs w))"
    by (rule teardown_needs_install) (simp add: new_live_def)
  with assms show ?thesis by auto
qed







lemma alive_next:
  "Observer_next v s = Inr s' \<Longrightarrow> next_live (exec (Suc n)) v (alive s) = Returned (alive s')"
  by (auto simp: Observer_next_def call_eq_Inr next_live_def invoke_def step_def alive_def
      plainly_def split: if_splits)

lemma alive_unsubscribe:
  "Observer_unsubscribe s = Inr s' \<Longrightarrow>
   unsubscribe_live (exec (Suc n)) (alive s) = Returned (alive s')"
  by (auto simp: Observer_unsubscribe_def Let_def call_eq_Inr unsubscribe_live_def invoke_def
      step_def alive_def split: if_splits)

lemma alive_error:
  "Observer_error err s = Inr s' \<Longrightarrow>
   error_live (exec (Suc n)) err (alive s) = Returned (alive s')"
proof (cases "isUnsubscribed (observer s)")
  case True
  assume "Observer_error err s = Inr s'"
  with True show ?thesis by (simp add: Observer_error_def error_live_def alive_def)
next
  case False
  assume e: "Observer_error err s = Inr s'"
  show ?thesis
  proof (cases "handlers_error (handlers (observer s))")
    case None
    with False e have "Observer_unsubscribe s = Inr s'"
      by (simp add: Observer_error_def)
    from alive_unsubscribe [OF this, of n] None False show ?thesis
      by (simp add: error_live_def alive_def plainly_def)
  next
    case (Some h)
    with False e obtain w where h: "h err (world s) = Inr w"
      and u: "Observer_unsubscribe (s\<lparr>world := w, trace := trace s @ [ErrorCalled err]\<rparr>) = Inr s'"
      by (auto simp: Observer_error_def and_then_eq_Inr call_eq_Inr)
    from alive_unsubscribe [OF u, of n] Some False h show ?thesis
      by (simp add: error_live_def alive_def plainly_def invoke_def step_def)
  qed
qed

lemma alive_complete:
  "Observer_complete s = Inr s' \<Longrightarrow>
   complete_live (exec (Suc n)) (alive s) = Returned (alive s')"
proof (cases "isUnsubscribed (observer s)")
  case True
  assume "Observer_complete s = Inr s'"
  with True show ?thesis by (simp add: Observer_complete_def complete_live_def alive_def)
next
  case False
  assume e: "Observer_complete s = Inr s'"
  show ?thesis
  proof (cases "handlers_complete (handlers (observer s))")
    case None
    with False e have "Observer_unsubscribe s = Inr s'"
      by (simp add: Observer_complete_def)
    from alive_unsubscribe [OF this, of n] None False show ?thesis
      by (simp add: complete_live_def alive_def plainly_def)
  next
    case (Some h)
    with False e obtain w where h: "h (world s) = Inr w"
      and u: "Observer_unsubscribe (s\<lparr>world := w, trace := trace s @ [CompleteCalled]\<rparr>) = Inr s'"
      by (auto simp: Observer_complete_def and_then_eq_Inr call_eq_Inr)
    from alive_unsubscribe [OF u, of n] Some False h show ?thesis
      by (simp add: complete_live_def alive_def plainly_def invoke_def step_def)
  qed
qed

lemma alive_deliver:
  "deliver c s = Inr s' \<Longrightarrow> step (exec (Suc n)) (call_of c) (alive s) = Returned (alive s')"
  by (cases c) (simp_all add: step_def alive_next alive_error alive_complete alive_unsubscribe
      del: exec.simps)

lemma alive_run:
  "run cs s = Inr s' \<Longrightarrow>
   exec (Suc (length cs + n)) (map call_of cs) (alive s) = Returned (alive s')"
proof (induction cs arbitrary: s)
  case Nil
  then show ?case by simp
next
  case (Cons c cs)
  from Cons.prems obtain s1 where d: "deliver c s = Inr s1" and r: "run cs s1 = Inr s'"
    by (auto simp: and_then_eq_Inr)
  from alive_deliver [OF d, of "length cs + n"] Cons.IH [OF r]
  show ?case by (simp del: exec.simps(2)) (simp)
qed

lemma alive_fresh: "alive (fresh hs w) = new_live (plainly hs) w"
  by (simp add: alive_def fresh_def new_Observer_def new_live_def)

lemma alive_setUnsubscribe:
  "alive (Observer_setUnsubscribe unsub s) = setUnsubscribe_live [Act unsub] (alive s)"
  by (simp add: alive_def Observer_setUnsubscribe_def setUnsubscribe_live_def)

lemma alive_subscribe:
  assumes "Observable_subscribe (scripted cs unsub) hs w = Inr s"
  shows "subscribe_live (Suc (length cs + n))
           \<lparr>produce = map call_of cs, teardown = [Act unsub]\<rparr> (plainly hs) w
         = Returned (alive s)"
proof -
  from assms obtain s0 where r: "run cs (fresh hs w) = Inr s0"
    and s: "s = Observer_setUnsubscribe unsub s0"
    by (auto simp: subscribe_scripted_Inr)
  from alive_run [OF r, of n] s show ?thesis
    by (simp add: subscribe_live_def alive_fresh alive_setUnsubscribe del: exec.simps)
qed

lemma from_live_scripted:
  "from_live vs = \<lparr>produce = map call_of (map Next vs @ [Complete]),
                   teardown = [Act log_unsubscribed]\<rparr>"
  by (simp add: from_live_def comp_def)

lemma alive_subscribe_from:
  assumes "Observable_subscribe (Observable_from vs) hs w = Inr s"
  shows "subscribe_live (Suc (Suc (length vs + n))) (from_live vs) (plainly hs) w
         = Returned (alive s)"
  using alive_subscribe [of "map Next vs @ [Complete]" log_unsubscribed hs w s n] assms
  by (simp add: from_live_scripted Observable_from_scripted del: exec.simps)

section \<open>The claims\<close>

text \<open>
  Claims C2 and C6 to C10 are stated in the terms of the first sections, with callbacks
  that are actions on the world; there a subscribe function is \<open>scripted cs unsub\<close>: it
  makes the method calls \<open>cs\<close> on the Observer and returns the teardown \<open>unsub\<close>, and
  \<open>Observable.from\<close> is one of them (lemma \<open>Observable_from_scripted\<close>). What happens to an
  Observer after \<^verbatim>\<open>subscribe\<close> has returned is a further sequence of method calls. Such a
  sequence ends at the first exception, so a statement about the state after a call is
  about a call that returned.

  Claims C1, C3, C4 and C5 speak of every subscribe function and of every signal, also
  after a callback has thrown or while one is running. Their theorems are stated for
  callbacks that reach the Observer, where a subscribe function is a \<open>producer\<close>. What
  the first sections compute is kept there (lemmas \<open>alive_subscribe\<close> and
  \<open>alive_subscribe_from\<close>).
\<close>

subsection \<open>C1: teardown on close\<close>




subsection \<open>C2: \<open>Observable.from\<close> emits in order, then completes\<close>

text \<open>
  Claim C2: for every list \<open>vs\<close>, subscribing to \<open>Observable.from vs\<close> with a \<^verbatim>\<open>next\<close> and a
  \<^verbatim>\<open>complete\<close> handler invokes \<^verbatim>\<open>next\<close> on each element of \<open>vs\<close> once, in the order of the
  list, and then \<^verbatim>\<open>complete\<close> once, after all of them. With handlers that never throw the
  call returns, and the world is the one the handlers produce in that order; with any
  handlers, a call that returns has this log.
\<close>

theorem from_delivers_in_order_then_completes:
  "Observable_subscribe (Observable_from vs)
      \<lparr>handlers_next = Some (\<lambda>v. returning (fn v)), handlers_error = he,
        handlers_complete = Some (returning fc)\<rparr> w
    = Inr \<lparr>observer =
             \<lparr>handlers =
                \<lparr>handlers_next = Some (\<lambda>v. returning (fn v)), handlers_error = he,
                  handlers_complete = Some (returning fc)\<rparr>,
              isUnsubscribed = True, private_unsubscribe = Some log_unsubscribed\<rparr>,
           world = fc (fold fn vs w),
           trace = map NextCalled vs @ [CompleteCalled, TeardownInstalled]\<rparr>
   \<and> (handlers_next hs \<noteq> None \<and> handlers_complete hs \<noteq> None \<and>
        Observable_subscribe (Observable_from vs) hs w' = Inr s
      \<longrightarrow> trace s = map NextCalled vs @ [CompleteCalled, TeardownInstalled])"
proof (intro conjI impI)
  let ?hs = "\<lparr>handlers_next = Some (\<lambda>v. returning (fn v)), handlers_error = he,
        handlers_complete = Some (returning fc)\<rparr>"
  have "run (map Next vs) (fresh ?hs w) =
      Inr ((fresh ?hs w)\<lparr>world := fold fn vs (world (fresh ?hs w)),
             trace := trace (fresh ?hs w) @ map NextCalled vs\<rparr>)"
    by (rule next_run_returning) (simp_all add: fresh_def new_Observer_def)
  then show "Observable_subscribe (Observable_from vs) ?hs w
    = Inr \<lparr>observer =
             \<lparr>handlers = ?hs, isUnsubscribed = True, private_unsubscribe = Some log_unsubscribed\<rparr>,
           world = fc (fold fn vs w),
           trace = map NextCalled vs @ [CompleteCalled, TeardownInstalled]\<rparr>"
    by (simp add: Observable_from_scripted Observable_subscribe_def scripted_def run_append
        fresh_def new_Observer_def Observer_complete_def Observer_unsubscribe_def call_def
        returning_def Observer_setUnsubscribe_def)
next
  assume "handlers_next hs \<noteq> None \<and> handlers_complete hs \<noteq> None \<and>
        Observable_subscribe (Observable_from vs) hs w' = Inr s"
  then show "trace s = map NextCalled vs @ [CompleteCalled, TeardownInstalled]"
    using subscribe_from_Inr [of vs hs w' s] by simp
qed

text \<open>
  Witness for C2 (Scenario A): the recording consumer on \<open>Observable.from [1, 2, 3]\<close> collects
  \<open>[1, 2, 3]\<close> and sets its flag.
\<close>

theorem from_delivers_in_order_then_completes_witness:
  "handlers_next recorder \<noteq> None \<and> handlers_complete recorder \<noteq> None \<and>
   Observable_subscribe (Observable_from [1, 2, 3]) recorder quiet =
     Inr \<lparr>observer = \<lparr>handlers = recorder, isUnsubscribed = True,
                       private_unsubscribe = Some log_unsubscribed\<rparr>,
          world = \<lparr>console = [],
                   user = \<lparr>seen_values = [1, 2, 3], seen_errors = [], seen_complete = True\<rparr>\<rparr>,
          trace = [NextCalled 1, NextCalled 2, NextCalled 3, CompleteCalled, TeardownInstalled]\<rparr>"
proof -
  let ?s = "\<lparr>observer = \<lparr>handlers = recorder, isUnsubscribed = True,
                       private_unsubscribe = Some log_unsubscribed\<rparr>,
          world = \<lparr>console = [],
                   user = \<lparr>seen_values = [1, 2, 3], seen_errors = [], seen_complete = True\<rparr>\<rparr>,
          trace = [NextCalled 1, NextCalled 2, NextCalled 3, CompleteCalled, TeardownInstalled]\<rparr>"
  have h: "handlers_next recorder \<noteq> None \<and> handlers_complete recorder \<noteq> None"
    by (simp add: recorder_def)
  have r: "Observable_subscribe (Observable_from [1, 2, 3]) recorder quiet = Inr ?s"
    by (simp add: Observable_subscribe_def Observable_from_def fresh_def new_Observer_def
        Observer_next_def Observer_complete_def Observer_unsubscribe_def
        Observer_setUnsubscribe_def call_def returning_def recorder_def quiet_def)
  from h r from_delivers_in_order_then_completes
      [where vs = "[1, 2, 3]" and hs = recorder and w' = quiet and s = "?s", THEN conjunct2]
  show ?thesis by simp
qed

subsection \<open>C3: silence after a terminal signal\<close>




subsection \<open>C4: at most one terminal signal is delivered\<close>

text \<open>
  Claim C4 as stated fails. The \<^verbatim>\<open>error\<close> handler records the error and throws; the subscribe
  function catches the exception and calls \<^verbatim>\<open>complete()\<close>: the Observer is still open, so the
  \<^verbatim>\<open>complete\<close> handler is invoked as well.
\<close>

theorem both_terminal_signals_delivered_counterexample:
  "subscribe_live 5 \<lparr>produce = [swallowing [CallError ''boom''], CallComplete],
          teardown = [Act log_unsubscribed]\<rparr> rethrowing quiet
     = Returned \<lparr>live_handlers = rethrowing, live_isUnsubscribed = True,
         live_unsubscribe = Some [Act log_unsubscribed],
         live_world = \<lparr>console = [],
           user = \<lparr>seen_values = [], seen_errors = [''boom''], seen_complete = True\<rparr>\<rparr>,
         live_trace = [ErrorCalled ''boom'', CompleteCalled, TeardownInstalled]\<rparr>"
  by (simp add: live_defs eval_nat_numeral rethrowing_def plainly_def recorder_def
      quiet_def returning_def swallowing_def)

text \<open>
  Claim C4, amended: take an Observer whose \<^verbatim>\<open>error\<close> and \<^verbatim>\<open>complete\<close> handlers, where present,
  return without calling the Observer: each is one action that returns. Over its life (any
  subscribe function, whether it returns or throws, any \<^verbatim>\<open>next\<close> handler, any teardown, any
  calls made afterwards, however they end) at most one invocation of the \<^verbatim>\<open>error\<close> or
  \<^verbatim>\<open>complete\<close> handler is logged, and once one is logged the Observer is closed. On a closed
  Observer \<^verbatim>\<open>error\<close> and \<^verbatim>\<open>complete\<close> change nothing. On an open one each of them invokes its
  handler, if present, once and then goes through \<^verbatim>\<open>unsubscribe()\<close>, and \<^verbatim>\<open>unsubscribe()\<close> has set
  the flag wherever it ends.
\<close>

theorem one_terminal_signal_when_handlers_return:
  assumes "code_error hs = map_option (\<lambda>f err. [Act (returning (f err))]) fe"
    and "code_complete hs = map_option (\<lambda>f. [Act (returning f)]) fc"
    and "subscribe_live n p hs w = Returned s \<or> subscribe_live n p hs w = Raised x0 s"
    and "exec m later s = Returned s' \<or> exec m later s = Raised x s'"
  shows "length (filter terminal (live_trace s')) \<le> 1
       \<and> (filter terminal (live_trace s') \<noteq> [] \<longrightarrow> live_isUnsubscribed s')
       \<and> (live_isUnsubscribed s' \<longrightarrow>
            error_live ex err s' = Returned s' \<and> complete_live ex s' = Returned s')
       \<and> (\<not> live_isUnsubscribed s' \<longrightarrow>
            error_live (exec (Suc j)) err s' =
              unsubscribe_live (exec (Suc j))
                (case fe of None \<Rightarrow> s'
                 | Some f \<Rightarrow> s'\<lparr>live_trace := live_trace s' @ [ErrorCalled err],
                                 live_world := f err (live_world s')\<rparr>)
            \<and> complete_live (exec (Suc j)) s' =
              unsubscribe_live (exec (Suc j))
                (case fc of None \<Rightarrow> s'
                 | Some f \<Rightarrow> s'\<lparr>live_trace := live_trace s' @ [CompleteCalled],
                                 live_world := f (live_world s')\<rparr>))
       \<and> (unsubscribe_live (exec j) s'' = Returned s1 \<or> unsubscribe_live (exec j) s'' = Raised y s1
            \<longrightarrow> live_isUnsubscribed s1)"
proof -
  have "settled hs (new_live hs w)"
    by (simp add: settled_def new_live_def)
  then have "after (settled hs) (exec n (produce p) (new_live hs w))"
    by (rule exec_settled [OF assms(1,2)])
  with assms(3) have "settled hs s"
    by (cases "exec n (produce p) (new_live hs w)")
      (auto simp: subscribe_live_def settled_def setUnsubscribe_live_def)
  then have "after (settled hs) (exec m later s)"
    by (rule exec_settled [OF assms(1,2)])
  with assms(4) have st: "settled hs s'" by auto
  then have hs': "live_handlers s' = hs"
    and cnt: "length (filter terminal (live_trace s')) \<le> (if live_isUnsubscribed s' then 1 else 0)"
    by (simp_all add: settled_def)
  from cnt have a: "length (filter terminal (live_trace s')) \<le> 1"
    by (simp split: if_splits)
  from cnt have b: "filter terminal (live_trace s') \<noteq> [] \<longrightarrow> live_isUnsubscribed s'"
    by (auto split: if_splits)
  have c: "live_isUnsubscribed s' \<longrightarrow>
      error_live ex err s' = Returned s' \<and> complete_live ex s' = Returned s'"
    by (simp add: error_live_def complete_live_def)
  have d: "error_live (exec (Suc j)) err s' =
      unsubscribe_live (exec (Suc j))
        (case fe of None \<Rightarrow> s'
         | Some f \<Rightarrow> s'\<lparr>live_trace := live_trace s' @ [ErrorCalled err],
                         live_world := f err (live_world s')\<rparr>)"
    if "\<not> live_isUnsubscribed s'"
    using that hs' assms(1)
    by (cases fe) (simp_all add: error_live_def invoke_def step_def returning_def)
  have e: "complete_live (exec (Suc j)) s' =
      unsubscribe_live (exec (Suc j))
        (case fc of None \<Rightarrow> s'
         | Some f \<Rightarrow> s'\<lparr>live_trace := live_trace s' @ [CompleteCalled],
                         live_world := f (live_world s')\<rparr>)"
    if "\<not> live_isUnsubscribed s'"
    using that hs' assms(2)
    by (cases fc) (simp_all add: complete_live_def invoke_def step_def returning_def)
  have f: "unsubscribe_live (exec j) s'' = Returned s1 \<or> unsubscribe_live (exec j) s'' = Raised y s1
      \<longrightarrow> live_isUnsubscribed s1"
    using unsubscribe_live_closed [of j s''] by auto
  from a b c d e f show ?thesis by blast
qed

text \<open>
  Witness for C4: \<^verbatim>\<open>complete()\<close> first, then \<^verbatim>\<open>error('late')\<close>, during production, and two more terminal
  signals afterwards: only the \<^verbatim>\<open>complete\<close> handler is invoked. And an Observer that is still
  open when \<^verbatim>\<open>subscribe\<close> returns: \<^verbatim>\<open>complete()\<close> invokes the handler and closes it.
\<close>

theorem one_terminal_signal_when_handlers_return_witness:
  "\<exists>s s' t t'.
     subscribe_live 6
       \<lparr>produce = [CallNext 1, CallComplete, CallError ''late''],
         teardown = [Act log_unsubscribed]\<rparr> (plainly recorder) quiet = Returned s
     \<and> exec 6 [CallError ''x'', CallComplete] s = Returned s'
     \<and> filter terminal (live_trace s') = [CompleteCalled]
     \<and> live_isUnsubscribed s'
     \<and> error_live (exec 1) ''y'' s' = Returned s'
     \<and> complete_live (exec 1) s' = Returned s'
     \<and> subscribe_live 6 \<lparr>produce = [CallNext 1], teardown = [Act log_unsubscribed]\<rparr>
          (plainly recorder) quiet = Returned t
     \<and> exec 6 [] t = Returned t
     \<and> \<not> live_isUnsubscribed t
     \<and> complete_live (exec (Suc 1)) t = Returned t'
     \<and> live_isUnsubscribed t'
     \<and> live_trace t' = [NextCalled 1, TeardownInstalled, CompleteCalled, TeardownCalled]"
proof -
  let ?p = "\<lparr>produce = [CallNext 1, CallComplete, CallError ''late''],
      teardown = [Act log_unsubscribed]\<rparr> :: (nat, string, recorded) producer"
  let ?q = "\<lparr>produce = [CallNext 1], teardown = [Act log_unsubscribed]\<rparr>
    :: (nat, string, recorded) producer"
  let ?fe = "Some (\<lambda>err (w :: recorded world).
      w\<lparr>user := (user w)\<lparr>seen_errors := seen_errors (user w) @ [err]\<rparr>\<rparr>)"
  let ?c = "\<lambda>w :: recorded world. w\<lparr>user := (user w)\<lparr>seen_complete := True\<rparr>\<rparr>"
  let ?fc = "Some ?c"
  let ?s = "\<lparr>live_handlers = plainly recorder, live_isUnsubscribed = True,
      live_unsubscribe = Some [Act log_unsubscribed],
      live_world = \<lparr>console = [],
        user = \<lparr>seen_values = [1], seen_errors = [], seen_complete = True\<rparr>\<rparr>,
      live_trace = [NextCalled 1, CompleteCalled, TeardownInstalled]\<rparr>
        :: (nat, string, recorded) live"
  let ?t = "\<lparr>live_handlers = plainly recorder, live_isUnsubscribed = False,
      live_unsubscribe = Some [Act log_unsubscribed],
      live_world = \<lparr>console = [],
        user = \<lparr>seen_values = [1], seen_errors = [], seen_complete = False\<rparr>\<rparr>,
      live_trace = [NextCalled 1, TeardownInstalled]\<rparr> :: (nat, string, recorded) live"
  let ?t1 = "?t\<lparr>live_trace := live_trace ?t @ [CompleteCalled],
      live_world := ?c (live_world ?t)\<rparr>"
  let ?t' = "\<lparr>live_handlers = plainly recorder, live_isUnsubscribed = True,
      live_unsubscribe = Some [Act log_unsubscribed],
      live_world = \<lparr>console = [''unsubscribed''],
        user = \<lparr>seen_values = [1], seen_errors = [], seen_complete = True\<rparr>\<rparr>,
      live_trace = [NextCalled 1, TeardownInstalled, CompleteCalled, TeardownCalled]\<rparr>
        :: (nat, string, recorded) live"
  have he: "code_error (plainly recorder) = map_option (\<lambda>f err. [Act (returning (f err))]) ?fe"
    by (simp add: plainly_def recorder_def)
  have hc: "code_complete (plainly recorder) = map_option (\<lambda>f. [Act (returning f)]) ?fc"
    by (simp add: plainly_def recorder_def)
  have a: "subscribe_live 6 ?p (plainly recorder) quiet = Returned ?s"
    by (simp add: live_defs eval_nat_numeral plainly_def recorder_def quiet_def returning_def)
  have b: "exec 6 [CallError ''x'', CallComplete] ?s = Returned ?s"
    by (simp add: live_defs eval_nat_numeral)
  note t = one_terminal_signal_when_handlers_return
    [OF he hc disjI1 [OF a] disjI1 [OF b], where ex = "exec 1" and err = "''y''"]
  have c: "filter terminal (live_trace ?s) = [CompleteCalled]"
    by simp
  have d: "live_isUnsubscribed ?s"
    by simp
  have "error_live (exec 1) ''y'' ?s = Returned ?s \<and> complete_live (exec 1) ?s = Returned ?s"
    by (rule t [THEN conjunct2, THEN conjunct2, THEN conjunct1, rule_format, OF d])
  then have e: "error_live (exec 1) ''y'' ?s = Returned ?s"
    and f: "complete_live (exec 1) ?s = Returned ?s"
    by (rule conjunct1, rule conjunct2)
  have g: "subscribe_live 6 ?q (plainly recorder) quiet = Returned ?t"
    by (simp add: live_defs eval_nat_numeral plainly_def recorder_def quiet_def returning_def)
  have h: "exec 6 [] ?t = Returned ?t"
    by simp
  have i: "\<not> live_isUnsubscribed ?t"
    by simp
  have u1: "unsubscribe_live (exec (Suc 1)) ?t1 = Returned ?t'"
    by (simp add: live_defs log_unsubscribed_def)
  note u = one_terminal_signal_when_handlers_return
    [OF he hc disjI1 [OF g] disjI1 [OF h], where j = 1 and s'' = "?t1" and ?s1.0 = "?t'"]
  have "complete_live (exec (Suc 1)) ?t =
      unsubscribe_live (exec (Suc 1))
        (case ?fc of None \<Rightarrow> ?t
         | Some f \<Rightarrow> ?t\<lparr>live_trace := live_trace ?t @ [CompleteCalled],
                         live_world := f (live_world ?t)\<rparr>)"
    by (rule u [THEN conjunct2, THEN conjunct2, THEN conjunct2, THEN conjunct1, rule_format,
          OF i, THEN conjunct2])
  then have k: "complete_live (exec (Suc 1)) ?t = Returned ?t'"
    using u1 by (simp only: option.case)
  note u2 = one_terminal_signal_when_handlers_return
    [OF he hc disjI1 [OF g] disjI1 [OF h], where j = "Suc 1" and s'' = "?t1" and ?s1.0 = "?t'"]
  have l: "live_isUnsubscribed ?t'"
    by (rule u2 [THEN conjunct2, THEN conjunct2, THEN conjunct2, THEN conjunct2, rule_format,
          OF disjI1 [OF u1]])
  have m: "live_trace ?t' = [NextCalled 1, TeardownInstalled, CompleteCalled, TeardownCalled]"
    by simp
  from a b c d e f g h i k l m show ?thesis
    by - ((rule exI)+, (rule conjI, assumption)+, assumption)
qed

subsection \<open>C5: when the teardown is installed\<close>

text \<open>
  Claim C5 as stated fails. On \<open>Observable.from [1]\<close> the \<^verbatim>\<open>next\<close> and the \<^verbatim>\<open>complete\<close> handler
  have both been invoked before the teardown is installed: the installation is the last
  entry of the log, not the first.
\<close>

theorem teardown_installed_first_counterexample:
  "observed (Observable_subscribe (Observable_from [1]) recorder quiet)
    = Inr (True, [NextCalled 1, CompleteCalled, TeardownInstalled],
           \<lparr>console = [],
             user = \<lparr>seen_values = [1], seen_errors = [], seen_complete = True\<rparr>\<rparr>)"
  by (simp add: method_defs subscribe_defs recorder_def quiet_def)

text \<open>
  Claim C5, amended, for callbacks that reach the Observer. In every \<^verbatim>\<open>subscribe\<close> run whose
  subscribe function returns, \<^verbatim>\<open>subscribe\<close> installs the returned teardown, once, after the
  subscribe function has returned and so after every signal it delivered. If the subscribe
  function throws, \<^verbatim>\<open>subscribe\<close> ends with that exception in the configuration production
  reached: it installs nothing. And whenever production has logged no installation of its
  own (neither the subscribe function nor a callback it triggered called
  \<^verbatim>\<open>setUnsubscribe\<close>), the teardown field is unset when production ends and no teardown has
  been invoked.
\<close>

theorem teardown_installed_by_subscribe_after_production:
  "(exec n (produce p) (new_live hs w) = Returned s0 \<longrightarrow>
      subscribe_live n p hs w = Returned (setUnsubscribe_live (teardown p) s0)
      \<and> live_unsubscribe (setUnsubscribe_live (teardown p) s0) = Some (teardown p)
      \<and> live_trace (setUnsubscribe_live (teardown p) s0) = live_trace s0 @ [TeardownInstalled])
   \<and> (exec n (produce p) (new_live hs w) = Raised x s0 \<longrightarrow>
        subscribe_live n p hs w = Raised x s0)
   \<and> ((exec n (produce p) (new_live hs w) = Returned s0 \<or>
         exec n (produce p) (new_live hs w) = Raised x s0) \<and>
        TeardownInstalled \<notin> set (live_trace s0) \<longrightarrow>
        live_unsubscribe s0 = None \<and> TeardownCalled \<notin> set (live_trace s0))"
proof (intro conjI impI)
  assume "exec n (produce p) (new_live hs w) = Returned s0"
  then show "subscribe_live n p hs w = Returned (setUnsubscribe_live (teardown p) s0)"
    by (simp add: subscribe_live_def)
  show "live_unsubscribe (setUnsubscribe_live (teardown p) s0) = Some (teardown p)"
    and "live_trace (setUnsubscribe_live (teardown p) s0) = live_trace s0 @ [TeardownInstalled]"
    by (simp_all add: setUnsubscribe_live_def)
next
  assume "exec n (produce p) (new_live hs w) = Raised x s0"
  then show "subscribe_live n p hs w = Raised x s0"
    by (simp add: subscribe_live_def)
next
  assume a: "(exec n (produce p) (new_live hs w) = Returned s0 \<or>
         exec n (produce p) (new_live hs w) = Raised x s0) \<and>
        TeardownInstalled \<notin> set (live_trace s0)"
  then show "live_unsubscribe s0 = None" and "TeardownCalled \<notin> set (live_trace s0)"
    using production_without_install [of n "produce p" hs w s0 x] by simp_all
qed

text \<open>
  Witness for C5: production \<^verbatim>\<open>next(1); complete()\<close> with the recording consumer, and a production
  that throws after \<^verbatim>\<open>next(1)\<close>.
\<close>

theorem teardown_installed_by_subscribe_after_production_witness:
  "\<exists>s0 s1.
     exec 6 [CallNext 1, CallComplete] (new_live (plainly recorder) quiet) = Returned s0
     \<and> live_trace s0 = [NextCalled 1, CompleteCalled]
     \<and> live_unsubscribe s0 = None
     \<and> subscribe_live 6 \<lparr>produce = [CallNext 1, CallComplete], teardown = [Act log_unsubscribed]\<rparr>
          (plainly recorder) quiet = Returned (setUnsubscribe_live [Act log_unsubscribed] s0)
     \<and> live_trace (setUnsubscribe_live [Act log_unsubscribed] s0)
          = [NextCalled 1, CompleteCalled, TeardownInstalled]
     \<and> exec 6 [CallNext 1, Act (\<lambda>w. Inl ''stop'')] (new_live (plainly recorder) quiet)
          = Raised (Thrown ''stop'') s1
     \<and> subscribe_live 6
          \<lparr>produce = [CallNext 1, Act (\<lambda>w. Inl ''stop'')], teardown = [Act log_unsubscribed]\<rparr>
          (plainly recorder) quiet = Raised (Thrown ''stop'') s1
     \<and> live_unsubscribe s1 = None"
proof -
  let ?p = "\<lparr>produce = [CallNext 1, CallComplete], teardown = [Act log_unsubscribed]\<rparr>
    :: (nat, string, recorded) producer"
  let ?q = "\<lparr>produce = [CallNext 1, Act (\<lambda>w. Inl ''stop'')],
      teardown = [Act log_unsubscribed]\<rparr> :: (nat, string, recorded) producer"
  let ?s0 = "\<lparr>live_handlers = plainly recorder, live_isUnsubscribed = True,
      live_unsubscribe = None,
      live_world = \<lparr>console = [],
        user = \<lparr>seen_values = [1], seen_errors = [], seen_complete = True\<rparr>\<rparr>,
      live_trace = [NextCalled 1, CompleteCalled]\<rparr> :: (nat, string, recorded) live"
  let ?s1 = "\<lparr>live_handlers = plainly recorder, live_isUnsubscribed = False,
      live_unsubscribe = None,
      live_world = \<lparr>console = [],
        user = \<lparr>seen_values = [1], seen_errors = [], seen_complete = False\<rparr>\<rparr>,
      live_trace = [NextCalled 1]\<rparr> :: (nat, string, recorded) live"
  have a0: "exec 6 [CallNext 1, CallComplete] (new_live (plainly recorder) quiet) = Returned ?s0"
    by (simp add: live_defs eval_nat_numeral plainly_def recorder_def quiet_def returning_def)
  have b0: "exec 6 [CallNext 1, Act (\<lambda>w. Inl ''stop'')] (new_live (plainly recorder) quiet)
      = Raised (Thrown ''stop'') ?s1"
    by (simp add: live_defs eval_nat_numeral plainly_def recorder_def quiet_def returning_def)
  have a: "exec 6 (produce ?p) (new_live (plainly recorder) quiet) = Returned ?s0"
    using a0 by (simp only: producer.select_convs)
  have b: "exec 6 (produce ?q) (new_live (plainly recorder) quiet) = Raised (Thrown ''stop'') ?s1"
    using b0 by (simp only: producer.select_convs)
  note t = teardown_installed_by_subscribe_after_production
    [where n = 6 and p = "?p" and hs = "plainly recorder" and w = quiet and ?s0.0 = "?s0"
      and x = "Thrown ''stop''"]
  note u = teardown_installed_by_subscribe_after_production
    [where n = 6 and p = "?q" and hs = "plainly recorder" and w = quiet and ?s0.0 = "?s1"
      and x = "Thrown ''stop''"]
  have c: "live_trace ?s0 = [NextCalled 1, CompleteCalled]"
    by simp
  have ti0: "TeardownInstalled \<notin> set (live_trace ?s0)"
    by simp
  have "live_unsubscribe ?s0 = None \<and> TeardownCalled \<notin> set (live_trace ?s0)"
    by (rule t [THEN conjunct2, THEN conjunct2, rule_format, OF conjI [OF disjI1 [OF a] ti0]])
  then have d: "live_unsubscribe ?s0 = None" ..
  note v = t [THEN conjunct1, rule_format, OF a]
  have e: "subscribe_live 6 ?p (plainly recorder) quiet
      = Returned (setUnsubscribe_live [Act log_unsubscribed] ?s0)"
    using v [THEN conjunct1] by (simp only: producer.select_convs)
  have f: "live_trace (setUnsubscribe_live [Act log_unsubscribed] ?s0)
      = [NextCalled 1, CompleteCalled, TeardownInstalled]"
    using v [THEN conjunct2, THEN conjunct2] by (simp only: producer.select_convs) simp
  from u [THEN conjunct2, THEN conjunct1, rule_format, OF b]
  have g: "subscribe_live 6 ?q (plainly recorder) quiet = Raised (Thrown ''stop'') ?s1" .
  have ti1: "TeardownInstalled \<notin> set (live_trace ?s1)"
    by simp
  have "live_unsubscribe ?s1 = None \<and> TeardownCalled \<notin> set (live_trace ?s1)"
    by (rule u [THEN conjunct2, THEN conjunct2, rule_format, OF conjI [OF disjI2 [OF b] ti1]])
  then have h: "live_unsubscribe ?s1 = None" ..
  from a0 c d e f b0 g h show ?thesis
    by - ((rule exI)+, (rule conjI, assumption)+, assumption)
qed

subsection \<open>C6: unsubscribing twice\<close>

text \<open>
  Claim C6: two calls of \<^verbatim>\<open>subscription.unsubscribe()\<close> leave the Observer as one call does,
  closed; and when a teardown is installed each of the two calls invokes it, on the world
  the previous call left.
\<close>

theorem unsubscribe_twice_closed_and_teardown_rerun:
  assumes "Subscription_unsubscribe s = Inr s1"
    and "Subscription_unsubscribe s1 = Inr s2"
  shows "isUnsubscribed (observer s1) \<and> isUnsubscribed (observer s2)
       \<and> observer s2 = observer s1
       \<and> (private_unsubscribe (observer s) = Some unsub \<longrightarrow>
            unsub (world s) = Inr (world s1) \<and> unsub (world s1) = Inr (world s2)
            \<and> trace s1 = trace s @ [TeardownCalled]
            \<and> trace s2 = trace s @ [TeardownCalled, TeardownCalled])"
proof -
  from assms have u1: "Observer_unsubscribe s = Inr s1" and u2: "Observer_unsubscribe s1 = Inr s2"
    by (simp_all add: Subscription_unsubscribe_def)
  from Observer_unsubscribe_Inr [OF u1] Observer_unsubscribe_Inr [OF u2]
  have ob: "observer s1 = (observer s)\<lparr>isUnsubscribed := True\<rparr>" "observer s2 = observer s1"
    and tr: "trace s1 = trace s @ (if private_unsubscribe (observer s) \<noteq> None then [TeardownCalled] else [])"
      "trace s2 = trace s1 @ (if private_unsubscribe (observer s) \<noteq> None then [TeardownCalled] else [])"
    by simp_all
  have w: "unsub (world s) = Inr (world s1) \<and> unsub (world s1) = Inr (world s2)"
    if "private_unsubscribe (observer s) = Some unsub"
    using that u1 u2 ob
    by (auto simp: Observer_unsubscribe_def Let_def call_eq_Inr split: if_splits)
  from ob tr w show ?thesis by simp
qed

text \<open>
  Witness for C6: the usage at the end of the source file, with a second unsubscribe: the
  console gets \<^verbatim>\<open>unsubscribed\<close> twice.
\<close>

theorem unsubscribe_twice_closed_and_teardown_rerun_witness:
  "\<exists>s s1 s2. Observable_subscribe (Observable_from [1, 2, 3]) recorder quiet = Inr s
      \<and> Subscription_unsubscribe s = Inr s1 \<and> Subscription_unsubscribe s1 = Inr s2
      \<and> private_unsubscribe (observer s) = Some log_unsubscribed
      \<and> isUnsubscribed (observer s1) \<and> isUnsubscribed (observer s2)
      \<and> trace s2 = trace s @ [TeardownCalled, TeardownCalled]
      \<and> console (world s) = [] \<and> console (world s1) = [''unsubscribed'']
      \<and> console (world s2) = [''unsubscribed'', ''unsubscribed'']"
proof -
  let ?ob = "\<lparr>handlers = recorder, isUnsubscribed = True,
               private_unsubscribe = Some log_unsubscribed\<rparr>"
  let ?u = "\<lparr>seen_values = [1, 2, 3], seen_errors = [], seen_complete = True\<rparr>"
  let ?t = "[NextCalled 1, NextCalled 2, NextCalled 3, CompleteCalled, TeardownInstalled]"
  let ?s = "\<lparr>observer = ?ob, world = \<lparr>console = [], user = ?u\<rparr>, trace = ?t\<rparr>
    :: (nat, string, recorded) config"
  let ?s1 = "\<lparr>observer = ?ob, world = \<lparr>console = [''unsubscribed''], user = ?u\<rparr>,
      trace = ?t @ [TeardownCalled]\<rparr> :: (nat, string, recorded) config"
  let ?s2 = "\<lparr>observer = ?ob, world = \<lparr>console = [''unsubscribed'', ''unsubscribed''], user = ?u\<rparr>,
      trace = ?t @ [TeardownCalled, TeardownCalled]\<rparr> :: (nat, string, recorded) config"
  have a: "Observable_subscribe (Observable_from [1, 2, 3]) recorder quiet = Inr ?s"
    by (simp add: method_defs subscribe_defs recorder_def quiet_def)
  have b: "Subscription_unsubscribe ?s = Inr ?s1"
    by (simp add: method_defs subscribe_defs)
  have c: "Subscription_unsubscribe ?s1 = Inr ?s2"
    by (simp add: method_defs subscribe_defs)
  have d: "private_unsubscribe (observer ?s) = Some log_unsubscribed"
    by simp
  note t = unsubscribe_twice_closed_and_teardown_rerun [OF b c, where unsub = log_unsubscribed]
  have e: "isUnsubscribed (observer ?s1)" and f: "isUnsubscribed (observer ?s2)"
    using t by blast+
  have g: "trace ?s2 = trace ?s @ [TeardownCalled, TeardownCalled]"
    using t d by blast
  have h: "console (world ?s) = []" "console (world ?s1) = [''unsubscribed'']"
    "console (world ?s2) = [''unsubscribed'', ''unsubscribed'']"
    by simp_all
  from a b c d e f g h show ?thesis
    by - ((rule exI)+, (rule conjI, assumption)+, assumption)
qed

subsection \<open>C7: an error without an error handler\<close>

text \<open>
  Claim C7: on an open Observer with no \<^verbatim>\<open>error\<close> handler, \<^verbatim>\<open>error(err)\<close> is
  \<^verbatim>\<open>unsubscribe()\<close>: the result does not depend on \<open>err\<close>, no handler is invoked, the
  Observer is closed when the call returns, and the only exception it can end with is one
  the teardown throws.
\<close>

theorem error_without_handler_is_dropped:
  assumes "\<not> isUnsubscribed (observer s)"
    and "handlers_error (handlers (observer s)) = None"
  shows "Observer_error err s = Observer_unsubscribe s
       \<and> (private_unsubscribe (observer s) = None \<longrightarrow>
            Observer_error err s = Inr (s\<lparr>observer := (observer s)\<lparr>isUnsubscribed := True\<rparr>\<rparr>))
       \<and> (Observer_error err s = Inr s' \<longrightarrow>
            isUnsubscribed (observer s') \<and> filter terminal (trace s') = filter terminal (trace s))
       \<and> (Observer_error err s = Inl x \<longrightarrow>
            (\<exists>unsub y. private_unsubscribe (observer s) = Some unsub \<and>
               unsub (world s) = Inl y \<and> x = Thrown y))"
proof -
  from assms have eq: "Observer_error err s = Observer_unsubscribe s"
    by (simp add: Observer_error_def)
  have closed: "isUnsubscribed (observer s') \<and> filter terminal (trace s') = filter terminal (trace s)"
    if "Observer_error err s = Inr s'"
    using that Observer_unsubscribe_Inr [of s s'] by (simp add: eq)
  have thrown: "\<exists>unsub y. private_unsubscribe (observer s) = Some unsub \<and>
      unsub (world s) = Inl y \<and> x = Thrown y"
    if "Observer_error err s = Inl x"
    using that
    by (auto simp: eq Observer_unsubscribe_def Let_def call_def split: if_splits sum.splits)
  from eq closed thrown show ?thesis
    by (simp add: Observer_unsubscribe_unset)
qed

text \<open>
  Witness for C7: \<^verbatim>\<open>error('boom')\<close> on a new Observer with no handlers.
\<close>

theorem error_without_handler_is_dropped_witness:
  "\<not> isUnsubscribed (observer
       (fresh no_handlers \<lparr>console = [], user = ()\<rparr> :: (nat, string, unit) config))
   \<and> handlers_error (handlers (observer
       (fresh no_handlers \<lparr>console = [], user = ()\<rparr> :: (nat, string, unit) config))) = None
   \<and> Observer_error ''boom''
       (fresh no_handlers \<lparr>console = [], user = ()\<rparr> :: (nat, string, unit) config)
       = Inr \<lparr>observer = \<lparr>handlers = no_handlers, isUnsubscribed = True,
                            private_unsubscribe = None\<rparr>,
              world = \<lparr>console = [], user = ()\<rparr>, trace = []\<rparr>"
proof -
  let ?s = "fresh no_handlers \<lparr>console = [], user = ()\<rparr> :: (nat, string, unit) config"
  have a: "\<not> isUnsubscribed (observer ?s)"
    by (simp add: fresh_def new_Observer_def)
  have b: "handlers_error (handlers (observer ?s)) = None"
    by (simp add: fresh_def new_Observer_def no_handlers_def)
  have c: "private_unsubscribe (observer ?s) = None"
    by (simp add: fresh_def new_Observer_def)
  from error_without_handler_is_dropped [OF a b, of "''boom''", THEN conjunct2, THEN conjunct1,
      rule_format, OF c]
  have "Observer_error ''boom'' ?s = Inr (?s\<lparr>observer := (observer ?s)\<lparr>isUnsubscribed := True\<rparr>\<rparr>)" .
  then have "Observer_error ''boom'' ?s
       = Inr \<lparr>observer = \<lparr>handlers = no_handlers, isUnsubscribed = True,
                             private_unsubscribe = None\<rparr>,
               world = \<lparr>console = [], user = ()\<rparr>, trace = []\<rparr>"
    by (simp add: fresh_def new_Observer_def)
  with a b show ?thesis by simp
qed

subsection \<open>C8: a subscriber with no handlers\<close>

text \<open>
  Claim C8 as stated fails in its last part. Subscribing \<^verbatim>\<open>{}\<close> to \<open>Observable.from ['x']\<close>
  returns with the Observer closed, and the teardown has not run: nothing is logged but its
  installation and the console is empty.
\<close>

theorem silent_subscriber_teardown_on_close_counterexample:
  "observed (Observable_subscribe (Observable_from [''x'']) no_handlers
       \<lparr>console = [], user = ()\<rparr> :: string exn + (string, string, unit) config)
    = Inr (True, [TeardownInstalled], \<lparr>console = [], user = ()\<rparr>)"
  by (simp add: method_defs subscribe_defs no_handlers_def)

text \<open>
  Claim C8, amended: subscribing \<^verbatim>\<open>{}\<close> to \<open>Observable.from [x]\<close> raises no exception and
  invokes no handler, production runs to completion (the Observer is closed) and the world
  is unchanged; the teardown does not run on that close, it is installed afterwards and
  runs when \<^verbatim>\<open>subscription.unsubscribe()\<close> is called.
\<close>

theorem silent_subscriber_runs_teardown_only_on_unsubscribe:
  "Observable_subscribe (Observable_from [x]) no_handlers w
     = Inr \<lparr>observer = \<lparr>handlers = no_handlers, isUnsubscribed = True,
                          private_unsubscribe = Some log_unsubscribed\<rparr>,
            world = w, trace = [TeardownInstalled]\<rparr>
   \<and> Subscription_unsubscribe
        \<lparr>observer = \<lparr>handlers = no_handlers, isUnsubscribed = True,
                      private_unsubscribe = Some log_unsubscribed\<rparr>,
         world = w, trace = [TeardownInstalled]\<rparr>
     = Inr \<lparr>observer = \<lparr>handlers = no_handlers, isUnsubscribed = True,
                          private_unsubscribe = Some log_unsubscribed\<rparr>,
            world = w\<lparr>console := console w @ [''unsubscribed'']\<rparr>,
            trace = [TeardownInstalled, TeardownCalled]\<rparr>"
  by (simp add: method_defs subscribe_defs no_handlers_def)

subsection \<open>C9: \<open>Observable.from\<close> never runs its teardown by itself\<close>

text \<open>
  Claim C9: after subscribing to \<open>Observable.from vs\<close> the teardown has not run; the
  subscribe function's \<^verbatim>\<open>complete()\<close> closed the Observer while the teardown field was
  unset; and as long as \<^verbatim>\<open>unsubscribe()\<close> is not called, no later call changes anything.
\<close>

theorem from_never_runs_teardown_without_unsubscribe:
  assumes "Observable_subscribe (Observable_from vs) hs w = Inr s"
    and "Unsubscribe \<notin> set later"
  shows "isUnsubscribed (observer s)
       \<and> count_list (trace s) TeardownCalled = 0
       \<and> run later s = Inr s
       \<and> (\<exists>s0. subscribeFn (Observable_from vs) (fresh hs w) = Inr (log_unsubscribed, s0)
              \<and> isUnsubscribed (observer s0) \<and> private_unsubscribe (observer s0) = None
              \<and> s = Observer_setUnsubscribe log_unsubscribed s0)"
proof -
  from assms(1) obtain s0 where r: "run (map Next vs @ [Complete]) (fresh hs w) = Inr s0"
    and s: "s = Observer_setUnsubscribe log_unsubscribed s0"
    by (auto simp: Observable_from_scripted subscribe_scripted_Inr)
  from r have fn: "subscribeFn (Observable_from vs) (fresh hs w) = Inr (log_unsubscribed, s0)"
    by (simp add: Observable_from_scripted scripted_def)
  from from_production_Inr [OF r]
  have s0: "isUnsubscribed (observer s0)" "private_unsubscribe (observer s0) = None"
    by simp_all
  from run_Inr [OF r] have "count_list (trace s0) TeardownCalled = 0"
    by (simp add: fresh_def new_Observer_def)
  with s s0 have closed: "isUnsubscribed (observer s)"
    and zero: "count_list (trace s) TeardownCalled = 0"
    by (simp_all add: Observer_setUnsubscribe_def)
  from closed assms(2) have "run later s = Inr s"
    by (rule run_closed)
  with closed zero fn s0 s show ?thesis by blast
qed

text \<open>
  Witness for C9: the recording consumer on \<open>Observable.from [1, 2, 3]\<close>, and three late
  signals.
\<close>

theorem from_never_runs_teardown_without_unsubscribe_witness:
  "\<exists>s. Observable_subscribe (Observable_from [1, 2, 3]) recorder quiet = Inr s
      \<and> Unsubscribe \<notin> set [Next 4, Complete, Error ''late'' :: (nat, string) signal]
      \<and> run [Next 4, Complete, Error ''late''] s = Inr s
      \<and> trace s = [NextCalled 1, NextCalled 2, NextCalled 3, CompleteCalled, TeardownInstalled]
      \<and> console (world s) = []"
proof -
  let ?s = "\<lparr>observer = \<lparr>handlers = recorder, isUnsubscribed = True,
                       private_unsubscribe = Some log_unsubscribed\<rparr>,
          world = \<lparr>console = [],
                   user = \<lparr>seen_values = [1, 2, 3], seen_errors = [], seen_complete = True\<rparr>\<rparr>,
          trace = [NextCalled 1, NextCalled 2, NextCalled 3, CompleteCalled, TeardownInstalled]\<rparr>
        :: (nat, string, recorded) config"
  have a: "Observable_subscribe (Observable_from [1, 2, 3]) recorder quiet = Inr ?s"
    by (simp add: method_defs subscribe_defs recorder_def quiet_def)
  have b: "Unsubscribe \<notin> set [Next 4, Complete, Error ''late'' :: (nat, string) signal]"
    by simp
  from from_never_runs_teardown_without_unsubscribe [OF a b]
  have c: "run [Next 4, Complete, Error ''late''] ?s = Inr ?s"
    by (elim conjE)
  have d: "trace ?s = [NextCalled 1, NextCalled 2, NextCalled 3, CompleteCalled, TeardownInstalled]"
    and e: "console (world ?s) = []"
    by simp_all
  from a b c d e show ?thesis
    by - (rule exI, (rule conjI, assumption)+, assumption)
qed

subsection \<open>C10: unsubscribing before a teardown is installed\<close>

text \<open>
  Claim C10: no method of the Observer ends with the \<^verbatim>\<open>TypeError\<close> of calling an absent
  callback. While the teardown field is unset, \<^verbatim>\<open>unsubscribe()\<close> returns and only sets the
  flag, and \<^verbatim>\<open>error\<close> and \<^verbatim>\<open>complete\<close> can only end with an exception that their own
  handler threw.
\<close>

theorem unsubscribe_safe_before_teardown_installed:
  "Observer_unsubscribe s \<noteq> Inl TypeError
   \<and> Observer_error err s \<noteq> Inl TypeError
   \<and> Observer_complete s \<noteq> Inl TypeError
   \<and> (private_unsubscribe (observer s) = None \<longrightarrow>
        Observer_unsubscribe s = Inr (s\<lparr>observer := (observer s)\<lparr>isUnsubscribed := True\<rparr>\<rparr>)
        \<and> (Observer_error err s = Inl x \<longrightarrow>
             (\<exists>h y. handlers_error (handlers (observer s)) = Some h \<and>
                h err (world s) = Inl y \<and> x = Thrown y))
        \<and> (Observer_complete s = Inl x \<longrightarrow>
             (\<exists>h y. handlers_complete (handlers (observer s)) = Some h \<and>
                h (world s) = Inl y \<and> x = Thrown y)))"
proof (intro conjI impI)
  show "Observer_unsubscribe s \<noteq> Inl TypeError"
    by (rule Observer_unsubscribe_no_TypeError)
  show "Observer_error err s \<noteq> Inl TypeError"
    using Observer_unsubscribe_no_TypeError
    by (auto simp: Observer_error_def call_def and_then_def split: sum.splits)
  show "Observer_complete s \<noteq> Inl TypeError"
    using Observer_unsubscribe_no_TypeError
    by (auto simp: Observer_complete_def call_def and_then_def split: sum.splits)
next
  assume "private_unsubscribe (observer s) = None"
  then show "Observer_unsubscribe s = Inr (s\<lparr>observer := (observer s)\<lparr>isUnsubscribed := True\<rparr>\<rparr>)"
    by (rule Observer_unsubscribe_unset)
next
  assume n: "private_unsubscribe (observer s) = None" and e: "Observer_error err s = Inl x"
  from e show "\<exists>h y. handlers_error (handlers (observer s)) = Some h \<and>
      h err (world s) = Inl y \<and> x = Thrown y"
    by (auto simp: Observer_error_def call_def and_then_def Observer_unsubscribe_unset n
        Observer_unsubscribe_def Let_def split: if_splits sum.splits)
next
  assume n: "private_unsubscribe (observer s) = None" and e: "Observer_complete s = Inl x"
  from e show "\<exists>h y. handlers_complete (handlers (observer s)) = Some h \<and>
      h (world s) = Inl y \<and> x = Thrown y"
    by (auto simp: Observer_complete_def call_def and_then_def n
        Observer_unsubscribe_def Let_def split: if_splits sum.splits)
qed

text \<open>
  Witness for C10: a new Observer of the consumer whose handlers throw.
\<close>

theorem unsubscribe_safe_before_teardown_installed_witness:
  "private_unsubscribe (observer (fresh throwing \<lparr>console = [], user = ()\<rparr>)) = None
   \<and> Observer_unsubscribe (fresh throwing \<lparr>console = [], user = ()\<rparr>)
       = Inr \<lparr>observer = \<lparr>handlers = throwing, isUnsubscribed = True,
                            private_unsubscribe = None\<rparr>,
              world = \<lparr>console = [], user = ()\<rparr>, trace = []\<rparr>
   \<and> Observer_error ''boom'' (fresh throwing \<lparr>console = [], user = ()\<rparr>) = Inl (Thrown ''boom'')
   \<and> Observer_complete (fresh throwing \<lparr>console = [], user = ()\<rparr>)
       = Inl (Thrown ''complete failed'')"
proof -
  let ?s = "fresh throwing \<lparr>console = [], user = ()\<rparr>"
  have n: "private_unsubscribe (observer ?s) = None"
    by (simp add: fresh_def new_Observer_def)
  from unsubscribe_safe_before_teardown_installed [of ?s, THEN conjunct2, THEN conjunct2,
      THEN conjunct2, rule_format, OF n, THEN conjunct1]
  have "Observer_unsubscribe ?s = Inr (?s\<lparr>observer := (observer ?s)\<lparr>isUnsubscribed := True\<rparr>\<rparr>)" .
  then have u: "Observer_unsubscribe ?s
       = Inr \<lparr>observer = \<lparr>handlers = throwing, isUnsubscribed = True,
                            private_unsubscribe = None\<rparr>,
              world = \<lparr>console = [], user = ()\<rparr>, trace = []\<rparr>"
    by (simp add: fresh_def new_Observer_def)
  have e: "Observer_error ''boom'' ?s = Inl (Thrown ''boom'')"
    by (simp add: method_defs subscribe_defs throwing_def)
  have c: "Observer_complete ?s = Inl (Thrown ''complete failed'')"
    by (simp add: method_defs subscribe_defs throwing_def)
  from n u e c show ?thesis by simp
qed

end
